theory Spec2Isabelle
  imports Main
begin

section \<open>Characters, whitespace and string helpers\<close>

text \<open>
  Template text is a JavaScript string; it is modelled as a \<open>string\<close> (a list of
  8-bit characters), so the development covers templates whose code units lie in the
  Latin-1 range. The lexer tests whitespace with the regular expression class \<open>\s\<close>
  (through the \<open>is-whitespace-character\<close> package) and with \<open>String.prototype.trim\<close>;
  both use the same set, which in this range is TAB, LF, VT, FF, CR, SPACE and NBSP.
\<close>

definition EOL :: char where
  "EOL = CHR 0x0A"

definition BACKSLASH :: char where
  "BACKSLASH = CHR 0x5C"

definition is_space :: "char \<Rightarrow> bool" where
  "is_space c = (c = CHR 0x09 \<or> c = CHR 0x0A \<or> c = CHR 0x0B \<or> c = CHR 0x0C
      \<or> c = CHR 0x0D \<or> c = CHR 0x20 \<or> c = CHR 0xA0)"

text \<open>
  \<open>whitespace(character)\<close> of the package tests the first character of its argument;
  on the empty string (the initial \<open>lastChar\<close> of a bucket) there is none and the test
  is false.
\<close>

definition whitespace :: "string \<Rightarrow> bool" where
  "whitespace s = (case s of [] \<Rightarrow> False | c # _ \<Rightarrow> is_space c)"

text \<open>The regular expression class \<open>\w\<close>: letters, digits and the underscore.\<close>

definition is_word :: "char \<Rightarrow> bool" where
  "is_word c = (let n = (of_char c :: nat) in
      (48 \<le> n \<and> n \<le> 57) \<or> (65 \<le> n \<and> n \<le> 90) \<or> (97 \<le> n \<and> n \<le> 122) \<or> n = 95)"

definition trim :: "string \<Rightarrow> string" where
  "trim s = rev (dropWhile is_space (rev (dropWhile is_space s)))"

text \<open>\<open>template.split(EOL)\<close>: always at least one line; the empty text is one empty line.\<close>

fun split_EOL :: "string \<Rightarrow> string list" where
  "split_EOL [] = [[]]"
| "split_EOL (c # cs) =
     (if c = EOL then [] # split_EOL cs
      else (case split_EOL cs of l # ls \<Rightarrow> (c # l) # ls | [] \<Rightarrow> [[c]]))"

text \<open>The inverse: the lines joined by the line terminator.\<close>

fun join_EOL :: "string list \<Rightarrow> string" where
  "join_EOL [] = []"
| "join_EOL [l] = l"
| "join_EOL (l # ls) = l @ EOL # join_EOL ls"


section \<open>Contracts\<close>

datatype WhiteSpaceModes = WS_NONE | WS_ALL | WS_CONTROLLED

record Prop =
  name :: string
  jsArg :: string
  raw :: string

record MustacheProp = Prop +
  textLeft :: string
  textRight :: string

text \<open>
  The node variants of \<open>NodeType\<close>: \<open>Raw value lineno\<close>, \<open>Newline lineno\<close>,
  \<open>Mustache lineno properties\<close> and \<open>Block lineno properties children\<close>.
\<close>

datatype Node =
    Raw string nat
  | Newline nat
  | Mustache nat Prop
  | Block nat Prop "Node list"

text \<open>The errors the lexer throws, as values.\<close>

datatype error =
    WriteInNewLine string
      \<comment> \<open>\<open>Unexpected token {...}. Write in a new line\<close>\<close>
  | WrapStatement char
      \<comment> \<open>\<open>Unexpected token ). Wrap statement inside ()\<close>\<close>
  | UnexpectedToken string
      \<comment> \<open>\<open>Unexpected token {...}\<close> of the mustache statement\<close>
  | TypeError
      \<comment> \<open>a property read on \<open>null\<close> or \<open>undefined\<close>\<close>


section \<open>CharBucket\<close>

record CharBucket =
  whitespace_mode :: WhiteSpaceModes
  chars :: string
  lastChar :: string

definition new_CharBucket :: "WhiteSpaceModes \<Rightarrow> CharBucket" where
  "new_CharBucket m = \<lparr>whitespace_mode = m, chars = [], lastChar = []\<rparr>"

definition get :: "CharBucket \<Rightarrow> string" where
  "get b = chars b"

definition feed :: "CharBucket \<Rightarrow> char \<Rightarrow> CharBucket" where
  "feed b c =
     (if whitespace_mode b = WS_CONTROLLED then
        (if whitespace [c] \<and> whitespace (lastChar b) then b
         else b\<lparr>chars := chars b @ [c], lastChar := [c]\<rparr>)
      else if whitespace_mode b = WS_NONE then
        (if whitespace [c] then b else b\<lparr>chars := chars b @ [c]\<rparr>)
      else b\<lparr>chars := chars b @ [c]\<rparr>)"

text \<open>Feeding a sequence of characters, one call of \<open>feed\<close> each.\<close>

definition feed_all :: "CharBucket \<Rightarrow> string \<Rightarrow> CharBucket" where
  "feed_all b cs = foldl feed b cs"


section \<open>TagStatement\<close>

text \<open>
  The fields of the class, prefixed with \<open>t\<close> where the mustache statement has a field
  of the same name. \<open>tinternalProps\<close> is \<open>None\<close> for \<open>null\<close>.
\<close>

datatype TagField = F_name | F_jsArg

record TagBuckets =
  bucket_name :: CharBucket
  bucket_jsArg :: CharBucket

record TagStatement =
  tstartPosition :: nat
  seekable :: bool
  tstarted :: bool
  tended :: bool
  tprops :: Prop
  tcurrentProp :: TagField
  internalParens :: int
  tinternalProps :: "TagBuckets option"

definition OPENING_PAREN :: char where
  "OPENING_PAREN = CHR 0x28"

definition CLOSING_PAREN :: char where
  "CLOSING_PAREN = CHR 0x29"

definition new_TagStatement :: "nat \<Rightarrow> bool \<Rightarrow> TagStatement" where
  "new_TagStatement pos sk =
     \<lparr>tstartPosition = pos, seekable = sk, tstarted = False, tended = False,
      tprops = \<lparr>name = [], jsArg = [], raw = []\<rparr>,
      tcurrentProp = F_name, internalParens = 0,
      tinternalProps = Some \<lparr>bucket_name = new_CharBucket WS_NONE,
                             bucket_jsArg = new_CharBucket WS_CONTROLLED\<rparr>\<rparr>"

text \<open>The getter \<open>seeking\<close> of \<open>src/TagStatement/index.ts\<close>.\<close>

definition tseeking :: "TagStatement \<Rightarrow> bool" where
  "tseeking s = (\<not> tstarted s \<or> \<not> tended s)"

definition isStartOfStatement :: "TagStatement \<Rightarrow> char \<Rightarrow> bool" where
  "isStartOfStatement s c = (c = OPENING_PAREN \<and> tcurrentProp s = F_name)"

definition isEndOfStatement :: "TagStatement \<Rightarrow> char \<Rightarrow> bool" where
  "isEndOfStatement s c = (c = CLOSING_PAREN \<and> internalParens s = 0)"

definition tsetProp :: "TagStatement \<Rightarrow> error + TagStatement" where
  "tsetProp s =
     (case tinternalProps s of
        None \<Rightarrow> Inl TypeError
      | Some bs \<Rightarrow>
          Inr (case tcurrentProp s of
                 F_name \<Rightarrow> s\<lparr>tprops := (tprops s)\<lparr>name := get (bucket_name bs)\<rparr>\<rparr>
               | F_jsArg \<Rightarrow> s\<lparr>tprops := (tprops s)\<lparr>jsArg := get (bucket_jsArg bs)\<rparr>\<rparr>))"

definition startStatement :: "TagStatement \<Rightarrow> error + TagStatement" where
  "startStatement s =
     (case tsetProp s of
        Inl e \<Rightarrow> Inl e
      | Inr s1 \<Rightarrow> Inr (s1\<lparr>tcurrentProp := F_jsArg, tstarted := True\<rparr>))"

definition endStatement :: "TagStatement \<Rightarrow> char \<Rightarrow> error + TagStatement" where
  "endStatement s c =
     (if \<not> tstarted s then Inl (WrapStatement c)
      else (case tsetProp (s\<lparr>tended := True\<rparr>) of
              Inl e \<Rightarrow> Inl e
            | Inr s1 \<Rightarrow> Inr (s1\<lparr>tinternalProps := None\<rparr>)))"

definition feedChar :: "TagStatement \<Rightarrow> char \<Rightarrow> error + TagStatement" where
  "feedChar s c =
     (let s1 = (if c = OPENING_PAREN then s\<lparr>internalParens := internalParens s + 1\<rparr> else s);
          s2 = (if c = CLOSING_PAREN then s1\<lparr>internalParens := internalParens s1 - 1\<rparr> else s1)
      in case tinternalProps s2 of
           None \<Rightarrow> Inl TypeError
         | Some bs \<Rightarrow>
             Inr (case tcurrentProp s2 of
                    F_name \<Rightarrow> s2\<lparr>tinternalProps := Some (bs\<lparr>bucket_name := feed (bucket_name bs) c\<rparr>)\<rparr>
                  | F_jsArg \<Rightarrow> s2\<lparr>tinternalProps := Some (bs\<lparr>bucket_jsArg := feed (bucket_jsArg bs) c\<rparr>)\<rparr>))"

definition ensureNoMoreCharsToFeed :: "string \<Rightarrow> error + unit" where
  "ensureNoMoreCharsToFeed cs = (if cs \<noteq> [] then Inl (WriteInNewLine cs) else Inr ())"

definition recordRaw :: "TagStatement \<Rightarrow> string \<Rightarrow> TagStatement" where
  "recordRaw s ln =
     (if raw (tprops s) = [] then s\<lparr>tprops := (tprops s)\<lparr>raw := raw (tprops s) @ ln\<rparr>\<rparr>
      else s\<lparr>tprops := (tprops s)\<lparr>raw := raw (tprops s) @ EOL # ln\<rparr>\<rparr>)"

definition feedNonSeekable :: "TagStatement \<Rightarrow> string \<Rightarrow> TagStatement" where
  "feedNonSeekable s ln =
     s\<lparr>tprops := (tprops s)\<lparr>name := trim ln\<rparr>, tended := True, tstarted := True,
       tinternalProps := None\<rparr>"

text \<open>The \<open>while (chars.length)\<close> loop of \<open>feedSeekable\<close>; \<open>break\<close> ends the recursion.\<close>

fun feedSeekable_loop :: "TagStatement \<Rightarrow> string \<Rightarrow> error + TagStatement" where
  "feedSeekable_loop s [] = Inr s"
| "feedSeekable_loop s (c # cs) =
     (if isStartOfStatement s c then
        (case startStatement s of Inl e \<Rightarrow> Inl e | Inr s1 \<Rightarrow> feedSeekable_loop s1 cs)
      else if isEndOfStatement s c then
        (case ensureNoMoreCharsToFeed cs of
           Inl e \<Rightarrow> Inl e
         | Inr _ \<Rightarrow> endStatement s c)
      else
        (case feedChar s c of Inl e \<Rightarrow> Inl e | Inr s1 \<Rightarrow> feedSeekable_loop s1 cs))"

definition feedSeekable :: "TagStatement \<Rightarrow> string \<Rightarrow> error + TagStatement" where
  "feedSeekable s ln =
     (case feedSeekable_loop s ln of
        Inl e \<Rightarrow> Inl e
      | Inr s1 \<Rightarrow> Inr (if \<not> tseeking s1 then s1\<lparr>tinternalProps := None\<rparr> else s1))"

definition tfeed :: "TagStatement \<Rightarrow> string \<Rightarrow> error + TagStatement" where
  "tfeed s ln =
     (if tended s then Inl (WriteInNewLine ln)
      else (let s1 = recordRaw s ln
            in if \<not> seekable s1 then Inr (feedNonSeekable s1 ln)
               else feedSeekable s1 ln))"

section \<open>MustacheStatement\<close>

text \<open>
  The fields of the class, prefixed with \<open>m\<close> where the tag statement has a field of
  the same name. \<open>minternalProps\<close> is \<open>None\<close> for \<open>null\<close>.
\<close>

datatype MustacheField = M_textLeft | M_jsArg | M_textRight

record MustacheBuckets =
  mbucket_jsArg :: CharBucket
  mbucket_textLeft :: CharBucket
  mbucket_textRight :: CharBucket

record MustacheStatement =
  mstartPosition :: nat
  mstarted :: bool
  mended :: bool
  mprops :: MustacheProp
  mcurrentProp :: MustacheField
  internalBraces :: int
  minternalProps :: "MustacheBuckets option"

definition OPENING_BRACE :: char where
  "OPENING_BRACE = CHR 0x7B"

definition CLOSING_BRACE :: char where
  "CLOSING_BRACE = CHR 0x7D"

definition new_MustacheStatement :: "nat \<Rightarrow> MustacheStatement" where
  "new_MustacheStatement pos =
     \<lparr>mstartPosition = pos, mstarted = False, mended = False,
      mprops = \<lparr>name = [], jsArg = [], raw = [], textLeft = [], textRight = []\<rparr>,
      mcurrentProp = M_textLeft, internalBraces = 0,
      minternalProps = Some \<lparr>mbucket_jsArg = new_CharBucket WS_CONTROLLED,
                             mbucket_textLeft = new_CharBucket WS_ALL,
                             mbucket_textRight = new_CharBucket WS_ALL\<rparr>\<rparr>"

text \<open>\<open>this.props.raw += str\<close>.\<close>

definition raw_append :: "MustacheStatement \<Rightarrow> string \<Rightarrow> MustacheStatement" where
  "raw_append s str = s\<lparr>mprops := (mprops s)\<lparr>raw := raw (mprops s) @ str\<rparr>\<rparr>"

text \<open>
  \<open>getName\<close> shifts the braces it recognises off \<open>chars\<close> and appends them to \<open>raw\<close>;
  the model returns the name together with the updated statement and the remaining
  characters.
\<close>

definition getName ::
  "MustacheStatement \<Rightarrow> string \<Rightarrow> char \<Rightarrow> string option \<times> MustacheStatement \<times> string" where
  "getName s cs c =
     (if c \<noteq> OPENING_BRACE \<or> cs = [] then (None, s, cs)
      else (case cs of
              [] \<Rightarrow> (None, s, cs)
            | n # cs1 \<Rightarrow>
                if n \<noteq> OPENING_BRACE then (None, s, cs)
                else (let s1 = raw_append s [OPENING_BRACE, OPENING_BRACE]
                      in case cs1 of
                           [] \<Rightarrow> (Some ''mustache'', s1, cs1)
                         | n2 # cs2 \<Rightarrow>
                             if n2 \<noteq> OPENING_BRACE then (Some ''mustache'', s1, cs1)
                             else (Some ''emustache'', raw_append s1 [OPENING_BRACE], cs2))))"

definition isClosing ::
  "MustacheStatement \<Rightarrow> string \<Rightarrow> char \<Rightarrow> bool \<times> MustacheStatement \<times> string" where
  "isClosing s cs c =
     (if c \<noteq> CLOSING_BRACE \<or> internalBraces s \<noteq> 0 then (False, s, cs)
      else if name (mprops s) = ''emustache'' \<and> length cs \<ge> 2 then
        (case cs of
           n # nn # cs2 \<Rightarrow>
             if n = CLOSING_BRACE \<and> nn = CLOSING_BRACE
             then (True, raw_append s [CLOSING_BRACE, CLOSING_BRACE], cs2)
             else (False, s, cs)
         | _ \<Rightarrow> (False, s, cs))
      else if name (mprops s) = ''mustache'' \<and> length cs \<ge> 1 then
        (case cs of
           n # cs1 \<Rightarrow>
             if n = CLOSING_BRACE then (True, raw_append s [CLOSING_BRACE], cs1)
             else (False, s, cs)
         | _ \<Rightarrow> (False, s, cs))
      else (False, s, cs))"

text \<open>The getter \<open>seeking\<close> of the mustache statement.\<close>

definition mseeking :: "MustacheStatement \<Rightarrow> bool" where
  "mseeking s = (mstarted s \<and> \<not> mended s)"

definition msetProp :: "MustacheStatement \<Rightarrow> error + MustacheStatement" where
  "msetProp s =
     (case minternalProps s of
        None \<Rightarrow> Inl TypeError
      | Some bs \<Rightarrow>
          Inr (case mcurrentProp s of
                 M_textLeft \<Rightarrow> s\<lparr>mprops := (mprops s)\<lparr>textLeft := get (mbucket_textLeft bs)\<rparr>\<rparr>
               | M_jsArg \<Rightarrow> s\<lparr>mprops := (mprops s)\<lparr>jsArg := get (mbucket_jsArg bs)\<rparr>\<rparr>
               | M_textRight \<Rightarrow> s\<lparr>mprops := (mprops s)\<lparr>textRight := get (mbucket_textRight bs)\<rparr>\<rparr>))"

text \<open>
  The last statements of \<open>processChar\<close>: the brace counter, then
  \<open>this.internalProps[this.currentProp].feed(char)\<close>.
\<close>

definition feedCurrent :: "MustacheStatement \<Rightarrow> char \<Rightarrow> error + MustacheStatement" where
  "feedCurrent s c =
     (let s1 = (if c = OPENING_BRACE then s\<lparr>internalBraces := internalBraces s + 1\<rparr> else s);
          s2 = (if c = CLOSING_BRACE then s1\<lparr>internalBraces := internalBraces s1 - 1\<rparr> else s1)
      in case minternalProps s2 of
           None \<Rightarrow> Inl TypeError
         | Some bs \<Rightarrow>
             Inr (case mcurrentProp s2 of
                    M_textLeft \<Rightarrow>
                      s2\<lparr>minternalProps := Some (bs\<lparr>mbucket_textLeft := feed (mbucket_textLeft bs) c\<rparr>)\<rparr>
                  | M_jsArg \<Rightarrow>
                      s2\<lparr>minternalProps := Some (bs\<lparr>mbucket_jsArg := feed (mbucket_jsArg bs) c\<rparr>)\<rparr>
                  | M_textRight \<Rightarrow>
                      s2\<lparr>minternalProps := Some (bs\<lparr>mbucket_textRight := feed (mbucket_textRight bs) c\<rparr>)\<rparr>))"

text \<open>
  \<open>processChar\<close> returns the statement and the characters still to be processed
  (\<open>getName\<close> and \<open>isClosing\<close> shift characters off the array they share with \<open>feed\<close>).
\<close>

definition processChar ::
  "MustacheStatement \<Rightarrow> string \<Rightarrow> char \<Rightarrow> error + (MustacheStatement \<times> string)" where
  "processChar s cs c =
     (let s1 = (if mcurrentProp s = M_jsArg then raw_append s [c] else s);
          (nm, s2, cs2) = (if \<not> mstarted s1 then getName s1 cs c else (None, s1, cs))
      in case nm of
           Some n \<Rightarrow>
             (case msetProp (s2\<lparr>mprops := (mprops s2)\<lparr>name := n\<rparr>, mstarted := True\<rparr>) of
                Inl e \<Rightarrow> Inl e
              | Inr s3 \<Rightarrow> Inr (s3\<lparr>mcurrentProp := M_jsArg\<rparr>, cs2))
         | None \<Rightarrow>
             (let (cl, s3, cs3) =
                    (if mstarted s2 \<and> \<not> mended s2 then isClosing s2 cs2 c else (False, s2, cs2))
              in if cl then
                   (case msetProp s3 of
                      Inl e \<Rightarrow> Inl e
                    | Inr s4 \<Rightarrow> Inr (s4\<lparr>mcurrentProp := M_textRight, mended := True\<rparr>, cs3))
                 else
                   (case feedCurrent s3 c of
                      Inl e \<Rightarrow> Inl e
                    | Inr s4 \<Rightarrow> Inr (s4, cs3))))"

lemma getName_length: "getName s cs c = (nm, s', cs') \<Longrightarrow> length cs' \<le> length cs"
  by (auto simp: getName_def Let_def split: if_splits list.splits)

lemma isClosing_length: "isClosing s cs c = (b, s', cs') \<Longrightarrow> length cs' \<le> length cs"
  by (auto simp: isClosing_def split: if_splits list.splits)

lemma processChar_length:
  assumes "processChar s cs c = Inr (s', cs')"
  shows "length cs' \<le> length cs"
proof -
  let ?s1 = "if mcurrentProp s = M_jsArg then raw_append s [c] else s"
  obtain nm s2 cs2 where g: "(if \<not> mstarted ?s1 then getName ?s1 cs c else (None, ?s1, cs)) = (nm, s2, cs2)"
    by (metis prod_cases3)
  then have l2: "length cs2 \<le> length cs"
    by (auto dest: getName_length split: if_splits)
  obtain cl s3 cs3 where i: "(if mstarted s2 \<and> \<not> mended s2 then isClosing s2 cs2 c else (False, s2, cs2)) = (cl, s3, cs3)"
    by (metis prod_cases3)
  then have l3: "length cs3 \<le> length cs2"
    by (auto dest: isClosing_length split: if_splits)
  from assms g i have "cs' = cs2 \<or> cs' = cs3"
    unfolding processChar_def Let_def
    by (auto split: option.splits sum.splits if_splits)
  with l2 l3 show ?thesis by auto
qed

text \<open>The \<open>while (chars.length)\<close> loop of \<open>feed\<close>.\<close>

function mfeed_loop :: "MustacheStatement \<Rightarrow> string \<Rightarrow> error + MustacheStatement" where
  "mfeed_loop s [] = Inr s"
| "mfeed_loop s (c # cs) =
     (case processChar s cs c of
        Inl e \<Rightarrow> Inl e
      | Inr (s1, cs1) \<Rightarrow> mfeed_loop s1 cs1)"
  by pat_completeness auto
termination
  by (relation "measure (\<lambda>(s, cs). length cs)") (auto dest: processChar_length)

definition mfeed :: "MustacheStatement \<Rightarrow> string \<Rightarrow> error + MustacheStatement" where
  "mfeed s ln =
     (if mended s then Inl (UnexpectedToken ln)
      else (let s1 = raw_append s (if raw (mprops s) \<noteq> [] then [EOL] else [])
            in case mfeed_loop s1 ln of
                 Inl e \<Rightarrow> Inl e
               | Inr s2 \<Rightarrow>
                   if \<not> mseeking s2 then
                     (case msetProp s2 of
                        Inl e \<Rightarrow> Inl e
                      | Inr s3 \<Rightarrow> Inr (s3\<lparr>minternalProps := None\<rparr>))
                   else Inr s2))"

section \<open>Tokenizer\<close>

text \<open>
  A tag definition, and what \<open>getTag\<close> returns: \<open>None\<close> in a field is \<open>undefined\<close>.
  The table \<open>tagsDef\<close> is a constructor argument that is never assigned; it is a
  parameter \<open>td\<close> of the functions below: \<open>td name\<close> is the lookup \<open>tagsDef[name]\<close>, and
  \<open>None\<close> where the lookup gives \<open>undefined\<close> (or another value that tests false).
\<close>

record TagDef =
  block :: "bool option"
  tag_seekable :: "bool option"
  escaped :: "bool option"

type_synonym TagsDef = "string \<Rightarrow> TagDef option"

text \<open>An element of \<open>openedTags\<close>: a block node whose children are still growing.\<close>

datatype BlockNode = BlockNode (lineno: nat) (properties: Prop) (children: "Node list")

fun node_of :: "BlockNode \<Rightarrow> Node" where
  "node_of (BlockNode l p ch) = Block l p ch"

record Tokenizer =
  tokens :: "Node list"
  blockStatement :: "TagStatement option"
  mustacheStatement :: "MustacheStatement option"
  line :: nat
  openedTags :: "BlockNode list"

definition new_Tokenizer :: Tokenizer where
  "new_Tokenizer =
     \<lparr>tokens = [], blockStatement = None, mustacheStatement = None, line = 0, openedTags = []\<rparr>"

text \<open>
  \<open>TAG_REGEX = /^(\\)?@(?:!)?(\w+)/\<close> on a string: whether group 1 (the backslash)
  matched, and group 2 (the identifier). Backtracking cannot change the outcome: neither
  the backslash nor the exclamation mark is a word character or an at sign.
\<close>

definition TAG_REGEX_exec :: "string \<Rightarrow> (bool \<times> string) option" where
  "TAG_REGEX_exec s =
     (let (esc, s1) = (case s of [] \<Rightarrow> (False, s)
                       | c # r \<Rightarrow> if c = BACKSLASH then (True, r) else (False, s))
      in case s1 of
           [] \<Rightarrow> None
         | a # r \<Rightarrow>
             if a \<noteq> CHR ''@'' then None
             else (let r1 = (case r of [] \<Rightarrow> r | b # r' \<Rightarrow> if b = CHR ''!'' then r' else r);
                       w = takeWhile is_word r1
                   in if w = [] then None else Some (esc, w)))"

text \<open>\<open>MUSTACHE_REGEX = /{{2}/\<close>: two consecutive opening braces somewhere.\<close>

fun MUSTACHE_REGEX_test :: "string \<Rightarrow> bool" where
  "MUSTACHE_REGEX_test (a # b # cs) =
     ((a = OPENING_BRACE \<and> b = OPENING_BRACE) \<or> MUSTACHE_REGEX_test (b # cs))"
| "MUSTACHE_REGEX_test _ = False"

text \<open>\<open>text.replace(ESCAPE_REGEX, '$1')\<close> with \<open>ESCAPE_REGEX = /^(\s*)\\/\<close>.\<close>

definition ESCAPE_REGEX_replace :: "string \<Rightarrow> string" where
  "ESCAPE_REGEX_replace s =
     (case dropWhile is_space s of
        [] \<Rightarrow> s
      | c # r \<Rightarrow> if c = BACKSLASH then takeWhile is_space s @ r else s)"

text \<open>\<open>text.replace(TRIM_TAG_REGEX, '')\<close> with \<open>TRIM_TAG_REGEX = /^@/\<close>.\<close>

definition TRIM_TAG_REGEX_replace :: "string \<Rightarrow> string" where
  "TRIM_TAG_REGEX_replace s = (case s of [] \<Rightarrow> s | c # r \<Rightarrow> if c = CHR ''@'' then r else s)"

definition getTag :: "TagsDef \<Rightarrow> string \<Rightarrow> TagDef option" where
  "getTag td ln =
     (case TAG_REGEX_exec (trim ln) of
        None \<Rightarrow> None
      | Some (esc, tagName) \<Rightarrow>
          (case td tagName of
             None \<Rightarrow> None
           | Some d \<Rightarrow>
               if esc then Some \<lparr>block = None, tag_seekable = None, escaped = Some True\<rparr>
               else Some d))"

definition getTagNode :: "Prop \<Rightarrow> nat \<Rightarrow> BlockNode" where
  "getTagNode p l = BlockNode l p []"

definition getRawNode :: "Tokenizer \<Rightarrow> string \<Rightarrow> Node" where
  "getRawNode st v = Raw v (line st)"

definition getBlankLineNode :: "Tokenizer \<Rightarrow> Node" where
  "getBlankLineNode st = Newline (line st)"

definition getMustacheNode :: "MustacheProp \<Rightarrow> nat \<Rightarrow> Node" where
  "getMustacheNode p l = Mustache l \<lparr>name = name p, jsArg = jsArg p, raw = raw p\<rparr>"

definition isClosingTag :: "Tokenizer \<Rightarrow> string \<Rightarrow> bool" where
  "isClosingTag st ln =
     (if openedTags st = [] then False
      else trim ln = ''@end'' @ name (properties (last (openedTags st))))"

text \<open>
  \<open>isSeeking(statement)\<close> and \<open>isSeeked(statement)\<close>, once for each class of statement;
  both are false on \<open>null\<close>.
\<close>

definition isSeeking_block :: "TagStatement option \<Rightarrow> bool" where
  "isSeeking_block b = (case b of None \<Rightarrow> False | Some s \<Rightarrow> tseeking s)"

definition isSeeked_block :: "TagStatement option \<Rightarrow> bool" where
  "isSeeked_block b = (case b of None \<Rightarrow> False | Some s \<Rightarrow> \<not> tseeking s)"

definition isSeeking_mustache :: "MustacheStatement option \<Rightarrow> bool" where
  "isSeeking_mustache m = (case m of None \<Rightarrow> False | Some s \<Rightarrow> mseeking s)"

definition isSeeked_mustache :: "MustacheStatement option \<Rightarrow> bool" where
  "isSeeked_mustache m = (case m of None \<Rightarrow> False | Some s \<Rightarrow> \<not> mseeking s)"

definition push_child :: "BlockNode \<Rightarrow> Node \<Rightarrow> BlockNode" where
  "push_child b n = BlockNode (lineno b) (properties b) (children b @ [n])"

definition consumeNode :: "Tokenizer \<Rightarrow> Node \<Rightarrow> Tokenizer" where
  "consumeNode st tag =
     (if openedTags st \<noteq> [] then
        st\<lparr>openedTags := butlast (openedTags st) @ [push_child (last (openedTags st)) tag]\<rparr>
      else st\<lparr>tokens := tokens st @ [tag]\<rparr>)"

definition feedTextToBlockStatement :: "TagsDef \<Rightarrow> Tokenizer \<Rightarrow> string \<Rightarrow> error + Tokenizer" where
  "feedTextToBlockStatement td st text =
     (case blockStatement st of
        None \<Rightarrow> Inl TypeError
      | Some bs \<Rightarrow>
          (case tfeed bs text of
             Inl e \<Rightarrow> Inl e
           | Inr bs1 \<Rightarrow>
               (let st1 = st\<lparr>blockStatement := Some bs1\<rparr>
                in if \<not> isSeeked_block (blockStatement st1) then Inr st1
                   else (case td (name (tprops bs1)) of
                           None \<Rightarrow> Inl TypeError
                         | Some d \<Rightarrow>
                             (let node = getTagNode (tprops bs1) (tstartPosition bs1);
                                  st2 = (if block d = Some True
                                         then st1\<lparr>openedTags := openedTags st1 @ [node]\<rparr>
                                         else consumeNode st1 (node_of node));
                                  st3 = consumeNode st2 (getBlankLineNode st2)
                              in Inr (st3\<lparr>blockStatement := None\<rparr>))))))"

text \<open>
  The measure under which \<open>processText\<close> and \<open>feedTextToMustacheStatement\<close> terminate:
  the text still to classify, plus what an open mustache statement may already hold of
  the text to its right.
\<close>

definition pending :: "MustacheStatement \<Rightarrow> nat" where
  "pending ms =
     (let b = (case minternalProps ms of None \<Rightarrow> [] | Some bs \<Rightarrow> chars (mbucket_textRight bs))
      in if textRight (mprops ms) = [] \<and> b = [] \<and> mcurrentProp ms \<noteq> M_textRight then 0
         else length (textRight (mprops ms)) + length b + 1)"

definition pending_of :: "MustacheStatement option \<Rightarrow> nat" where
  "pending_of m = (case m of None \<Rightarrow> 0 | Some ms \<Rightarrow> pending ms)"

subsection \<open>How one character changes a mustache statement\<close>

text \<open>The text to the right of the mustache held so far: in the bucket, and in the props.\<close>

definition bucketR :: "MustacheStatement \<Rightarrow> string" where
  "bucketR s = (case minternalProps s of None \<Rightarrow> [] | Some bs \<Rightarrow> chars (mbucket_textRight bs))"

lemma raw_append_fields [simp]:
  "mstarted (raw_append s x) = mstarted s"
  "mended (raw_append s x) = mended s"
  "mcurrentProp (raw_append s x) = mcurrentProp s"
  "internalBraces (raw_append s x) = internalBraces s"
  "minternalProps (raw_append s x) = minternalProps s"
  "mstartPosition (raw_append s x) = mstartPosition s"
  "name (mprops (raw_append s x)) = name (mprops s)"
  "jsArg (mprops (raw_append s x)) = jsArg (mprops s)"
  "textLeft (mprops (raw_append s x)) = textLeft (mprops s)"
  "textRight (mprops (raw_append s x)) = textRight (mprops s)"
  "raw (mprops (raw_append s x)) = raw (mprops s) @ x"
  by (simp_all add: raw_append_def)

lemma raw_append_Nil [simp]: "raw_append s [] = s"
  by (simp add: raw_append_def)

lemma raw_append_append [simp]: "raw_append (raw_append s x) y = raw_append s (x @ y)"
  by (simp add: raw_append_def)

lemma bucketR_raw_append [simp]: "bucketR (raw_append s x) = bucketR s"
  by (simp add: bucketR_def)

lemma getName_raw:
  "getName s cs c = (nm, s2, cs2) \<Longrightarrow>
     (nm = None \<and> s2 = s \<and> cs2 = cs) \<or> (\<exists>n x. nm = Some n \<and> s2 = raw_append s x \<and> length cs2 < length cs)"
  by (auto simp: getName_def Let_def split: if_splits list.splits)

lemma isClosing_raw:
  "isClosing s cs c = (b, s2, cs2) \<Longrightarrow>
     (\<not> b \<and> s2 = s \<and> cs2 = cs) \<or> (\<exists>x. b \<and> s2 = raw_append s x \<and> length cs2 < length cs)"
  by (auto simp: isClosing_def split: if_splits list.splits)

lemma processChar_cases:
  assumes "processChar s cs c = Inr (s', cs')"
  obtains
    (start) x n s3 where "\<not> mstarted s"
      "msetProp ((raw_append s x)\<lparr>mprops := (mprops (raw_append s x))\<lparr>name := n\<rparr>, mstarted := True\<rparr>) = Inr s3"
      "s' = s3\<lparr>mcurrentProp := M_jsArg\<rparr>" "length cs' < length cs"
  | (close) x s4 where "mstarted s" "\<not> mended s"
      "msetProp (raw_append s x) = Inr s4"
      "s' = s4\<lparr>mcurrentProp := M_textRight, mended := True\<rparr>" "length cs' < length cs"
  | (feed) x where "feedCurrent (raw_append s x) c = Inr s'" "cs' = cs"
proof -
  let ?s1 = "if mcurrentProp s = M_jsArg then raw_append s [c] else s"
  obtain y where s1: "?s1 = raw_append s y"
    by (cases "mcurrentProp s = M_jsArg") (auto intro: that [of "[c]"] that [of "[]"])
  obtain nm s2 cs2 where g: "(if \<not> mstarted ?s1 then getName ?s1 cs c else (None, ?s1, cs)) = (nm, s2, cs2)"
    by (metis prod_cases3)
  have g': "(nm = None \<and> s2 = ?s1 \<and> cs2 = cs)
      \<or> (\<exists>n x. \<not> mstarted s \<and> nm = Some n \<and> s2 = raw_append ?s1 x \<and> length cs2 < length cs)"
  proof (cases "mstarted ?s1")
    case True
    with g show ?thesis by simp
  next
    case False
    with g have "getName ?s1 cs c = (nm, s2, cs2)" by simp
    from getName_raw [OF this] False show ?thesis by (auto split: if_splits)
  qed
  show ?thesis
  proof (cases nm)
    case (Some n)
    with g' obtain x where ns: "\<not> mstarted s" and s2: "s2 = raw_append ?s1 x" and l: "length cs2 < length cs"
      by auto
    from s2 s1 have s2': "s2 = raw_append s (y @ x)" by simp
    from assms g Some obtain s3 where
      "msetProp (s2\<lparr>mprops := (mprops s2)\<lparr>name := n\<rparr>, mstarted := True\<rparr>) = Inr s3"
      "s' = s3\<lparr>mcurrentProp := M_jsArg\<rparr>" "cs' = cs2"
      unfolding processChar_def Let_def by (auto split: sum.splits)
    with ns l show ?thesis unfolding s2' by (auto intro: start)
  next
    case None
    with g' have s2: "s2 = raw_append s y" and c2: "cs2 = cs" using s1 by auto
    obtain cl s3 cs3 where i: "(if mstarted s2 \<and> \<not> mended s2 then isClosing s2 cs2 c else (False, s2, cs2)) = (cl, s3, cs3)"
      by (metis prod_cases3)
    have i': "(\<not> cl \<and> s3 = s2 \<and> cs3 = cs2)
      \<or> (\<exists>x. cl \<and> mstarted s \<and> \<not> mended s \<and> s3 = raw_append s2 x \<and> length cs3 < length cs2)"
    proof (cases "mstarted s2 \<and> \<not> mended s2")
      case True
      with i have "isClosing s2 cs2 c = (cl, s3, cs3)" by simp
      from isClosing_raw [OF this] True s2 show ?thesis by auto
    next
      case False
      with i show ?thesis by auto
    qed
    show ?thesis
    proof (cases cl)
      case True
      with i' obtain x where st: "mstarted s" "\<not> mended s" and s3: "s3 = raw_append s2 x"
        and l: "length cs3 < length cs2" by auto
      from s3 s2 have s3': "s3 = raw_append s (y @ x)" by simp
      from assms g None i True obtain s4 where
        "msetProp s3 = Inr s4" "s' = s4\<lparr>mcurrentProp := M_textRight, mended := True\<rparr>" "cs' = cs3"
        unfolding processChar_def Let_def by (auto split: sum.splits)
      with st l c2 show ?thesis unfolding s3' by (auto intro: close)
    next
      case False
      with i' have s3: "s3 = s2" "cs3 = cs2" by auto
      from assms g None i False have "feedCurrent s3 c = Inr s'" "cs' = cs3"
        unfolding processChar_def Let_def by (auto split: sum.splits)
      with s3 s2 c2 show ?thesis by (auto intro: feed)
    qed
  qed
qed

lemma msetProp_fields:
  assumes "msetProp s = Inr s'"
  shows "mstarted s' = mstarted s" "mended s' = mended s" "mcurrentProp s' = mcurrentProp s"
    "internalBraces s' = internalBraces s" "minternalProps s' = minternalProps s"
    "mstartPosition s' = mstartPosition s" "bucketR s' = bucketR s"
    "raw (mprops s') = raw (mprops s)" "name (mprops s') = name (mprops s)"
    "textRight (mprops s') = (if mcurrentProp s = M_textRight then bucketR s else textRight (mprops s))"
    "minternalProps s \<noteq> None"
  using assms
  by (auto simp: msetProp_def bucketR_def get_def split: option.splits MustacheField.splits)

lemma feed_chars_length: "length (chars (feed b c)) \<le> length (chars b) + 1"
  by (simp add: feed_def)

lemma feedCurrent_fields:
  assumes "feedCurrent s c = Inr s'"
  shows "mstarted s' = mstarted s" "mended s' = mended s" "mcurrentProp s' = mcurrentProp s"
    "mprops s' = mprops s" "mstartPosition s' = mstartPosition s"
    "minternalProps s' \<noteq> None" "minternalProps s \<noteq> None"
    "mcurrentProp s \<noteq> M_textRight \<Longrightarrow> bucketR s' = bucketR s"
    "length (bucketR s') \<le> length (bucketR s) + 1"
  using assms feed_chars_length
  by (auto simp: feedCurrent_def Let_def bucketR_def split: option.splits MustacheField.splits if_splits)

subsection \<open>A bound on the text to the right of a mustache\<close>

text \<open>
  Two invariants of the loop of \<open>feed\<close>. The first bounds the right-hand text by the
  characters fed plus what the statement held before; the second is the sharper bound
  for a statement that held nothing before.
\<close>

definition bound_inv :: "nat \<Rightarrow> MustacheStatement \<Rightarrow> string \<Rightarrow> bool" where
  "bound_inv K s cs = (length (textRight (mprops s)) \<le> K \<and> length (bucketR s) + length cs \<le> K)"

lemma processChar_bound_inv:
  assumes "processChar s cs c = Inr (s', cs')" and "bound_inv K s (c # cs)"
  shows "bound_inv K s' cs'"
  using assms(1)
proof (cases rule: processChar_cases)
  case (start x n s3)
  from msetProp_fields [OF start(2)] start(3,4) assms(2) show ?thesis
    by (auto simp: bound_inv_def bucketR_def split: if_splits)
next
  case (close x s4)
  from msetProp_fields [OF close(3)] close(4,5) assms(2) show ?thesis
    by (auto simp: bound_inv_def bucketR_def split: if_splits)
next
  case (feed x)
  from feedCurrent_fields [OF feed(1)] feed(2) assms(2) show ?thesis
    by (auto simp: bound_inv_def)
qed

lemma mfeed_loop_bound_inv:
  "mfeed_loop s cs = Inr s2 \<Longrightarrow> bound_inv K s cs \<Longrightarrow> bound_inv K s2 []"
proof (induction s cs rule: mfeed_loop.induct)
  case (1 s)
  then show ?case by simp
next
  case (2 s c cs)
  from "2.prems"(1) obtain s1 cs1 where p: "processChar s cs c = Inr (s1, cs1)"
    and l: "mfeed_loop s1 cs1 = Inr s2"
    by (auto split: sum.splits)
  from processChar_bound_inv [OF p "2.prems"(2)] have "bound_inv K s1 cs1" .
  with "2.IH" [OF p refl l] show ?case by simp
qed

definition clean_inv :: "nat \<Rightarrow> MustacheStatement \<Rightarrow> string \<Rightarrow> bool" where
  "clean_inv n s cs =
     (if mended s then mcurrentProp s = M_textRight \<and> mstarted s \<and> length (bucketR s) + length cs < n
      else textRight (mprops s) = [] \<and> bucketR s = [] \<and> mcurrentProp s \<noteq> M_textRight
           \<and> length cs \<le> n)"

lemma processChar_clean_inv:
  assumes "processChar s cs c = Inr (s', cs')" and "clean_inv n s (c # cs)"
  shows "clean_inv n s' cs'"
  using assms(1)
proof (cases rule: processChar_cases)
  case (start x n s3)
  from msetProp_fields [OF start(2)] start(1,3,4) assms(2) show ?thesis
    by (auto simp: clean_inv_def bucketR_def split: if_splits)
next
  case (close x s4)
  from msetProp_fields [OF close(3)] close(1,2,4,5) assms(2) show ?thesis
    by (auto simp: clean_inv_def bucketR_def split: if_splits)
next
  case (feed x)
  from feedCurrent_fields [OF feed(1)] feed(2) assms(2) show ?thesis
    by (auto simp: clean_inv_def split: if_splits)
qed

lemma mfeed_loop_clean_inv:
  "mfeed_loop s cs = Inr s2 \<Longrightarrow> clean_inv n s cs \<Longrightarrow> clean_inv n s2 []"
proof (induction s cs rule: mfeed_loop.induct)
  case (1 s)
  then show ?case by simp
next
  case (2 s c cs)
  from "2.prems"(1) obtain s1 cs1 where p: "processChar s cs c = Inr (s1, cs1)"
    and l: "mfeed_loop s1 cs1 = Inr s2"
    by (auto split: sum.splits)
  from processChar_clean_inv [OF p "2.prems"(2)] have "clean_inv n s1 cs1" .
  with "2.IH" [OF p refl l] show ?case by simp
qed

lemma mfeed_Inr:
  assumes "mfeed s ln = Inr s'"
  obtains s2 where "\<not> mended s"
    "mfeed_loop (raw_append s (if raw (mprops s) \<noteq> [] then [EOL] else [])) ln = Inr s2"
    "mseeking s2 \<Longrightarrow> s' = s2"
    "\<not> mseeking s2 \<Longrightarrow> \<exists>s3. msetProp s2 = Inr s3 \<and> s' = s3\<lparr>minternalProps := None\<rparr>"
proof -
  from assms have ne: "\<not> mended s" by (auto simp: mfeed_def split: if_splits)
  let ?s1 = "raw_append s (if raw (mprops s) \<noteq> [] then [EOL] else [])"
  from assms ne obtain s2 where l: "mfeed_loop ?s1 ln = Inr s2"
    by (cases "mfeed_loop ?s1 ln") (auto simp: mfeed_def Let_def)
  from assms ne l have a: "mseeking s2 \<Longrightarrow> s' = s2"
    by (auto simp: mfeed_def Let_def)
  from assms ne l have b: "\<not> mseeking s2 \<Longrightarrow> \<exists>s3. msetProp s2 = Inr s3 \<and> s' = s3\<lparr>minternalProps := None\<rparr>"
    by (cases "msetProp s2") (auto simp: mfeed_def Let_def)
  from ne l a b show ?thesis by (rule that)
qed

lemma mseeking_msetProp:
  "msetProp s = Inr s' \<Longrightarrow> mseeking (s'\<lparr>minternalProps := x\<rparr>) = mseeking s"
  by (auto simp: mseeking_def dest: msetProp_fields)

lemma mfeed_textRight_bound:
  assumes "mfeed ms text = Inr ms'" and "\<not> mseeking ms'" and "textRight (mprops ms') \<noteq> []"
  shows "length (textRight (mprops ms')) < length text + pending ms"
  using assms(1)
proof (cases rule: mfeed_Inr)
  case (1 s2)
  let ?s1 = "raw_append ms (if raw (mprops ms) \<noteq> [] then [EOL] else [])"
  have ns2: "\<not> mseeking s2"
  proof
    assume "mseeking s2"
    with 1(3) assms(2) show False by simp
  qed
  from 1(4) [OF ns2] obtain s3 where s3: "msetProp s2 = Inr s3"
    and ms': "ms' = s3\<lparr>minternalProps := None\<rparr>" by blast
  have tr: "textRight (mprops ms') = (if mcurrentProp s2 = M_textRight then bucketR s2 else textRight (mprops s2))"
    using msetProp_fields(10) [OF s3] ms' by simp
  have pend: "pending ms = (if textRight (mprops ms) = [] \<and> bucketR ms = [] \<and> mcurrentProp ms \<noteq> M_textRight
      then 0 else length (textRight (mprops ms)) + length (bucketR ms) + 1)"
    by (simp add: pending_def bucketR_def Let_def)
  show ?thesis
  proof (cases "textRight (mprops ms) = [] \<and> bucketR ms = [] \<and> mcurrentProp ms \<noteq> M_textRight")
    case True
    with 1(1) have "clean_inv (length text) ?s1 text" by (simp add: clean_inv_def)
    from mfeed_loop_clean_inv [OF 1(2) this] have c: "clean_inv (length text) s2 []" .
    show ?thesis
    proof (cases "mended s2")
      case True
      with c tr pend show ?thesis by (auto simp: clean_inv_def split: if_splits)
    next
      case False
      with c tr assms(3) show ?thesis by (auto simp: clean_inv_def split: if_splits)
    qed
  next
    case False
    let ?K = "length text + length (textRight (mprops ms)) + length (bucketR ms)"
    have "bound_inv ?K ?s1 text" by (simp add: bound_inv_def)
    from mfeed_loop_bound_inv [OF 1(2) this] have "bound_inv ?K s2 []" .
    with tr have "length (textRight (mprops ms')) \<le> ?K" by (auto simp: bound_inv_def)
    with False pend show ?thesis by auto
  qed
qed

subsection \<open>Classifying one piece of text\<close>

text \<open>
  \<open>processText\<close> and \<open>feedTextToMustacheStatement\<close> call each other: the text to the
  right of a closed mustache is classified again as if it were a line.
\<close>

function processText :: "TagsDef \<Rightarrow> Tokenizer \<Rightarrow> string \<Rightarrow> error + Tokenizer"
  and feedTextToMustacheStatement :: "TagsDef \<Rightarrow> Tokenizer \<Rightarrow> string \<Rightarrow> error + Tokenizer"
where
  "processText td st text =
     (if isSeeking_block (blockStatement st) then feedTextToBlockStatement td st text
      else if isSeeking_mustache (mustacheStatement st) then feedTextToMustacheStatement td st text
      else (case getTag td text of
              Some tag \<Rightarrow>
                if escaped tag = Some True then
                  (let st1 = consumeNode st (getRawNode st (ESCAPE_REGEX_replace text))
                   in Inr (consumeNode st1 (getBlankLineNode st1)))
                else
                  feedTextToBlockStatement td
                    (st\<lparr>blockStatement := Some (new_TagStatement (line st)
                          (case tag_seekable tag of None \<Rightarrow> True | Some b \<Rightarrow> b))\<rparr>)
                    (TRIM_TAG_REGEX_replace (trim text))
            | None \<Rightarrow>
                if isClosingTag st text then
                  (let st1 = st\<lparr>openedTags := butlast (openedTags st)\<rparr>;
                       st2 = consumeNode st1 (node_of (last (openedTags st)))
                   in Inr (consumeNode st2 (getBlankLineNode st2)))
                else if MUSTACHE_REGEX_test text then
                  feedTextToMustacheStatement td
                    (st\<lparr>mustacheStatement := Some (new_MustacheStatement (line st))\<rparr>) text
                else
                  (let st1 = consumeNode st (getRawNode st text)
                   in Inr (consumeNode st1 (getBlankLineNode st1)))))"
| "feedTextToMustacheStatement td st text =
     (case mustacheStatement st of
        None \<Rightarrow> Inl TypeError
      | Some ms \<Rightarrow>
          (case mfeed ms text of
             Inl e \<Rightarrow> Inl e
           | Inr ms1 \<Rightarrow>
               if \<not> isSeeked_mustache (Some ms1) then Inr (st\<lparr>mustacheStatement := Some ms1\<rparr>)
               else
                 (let st1 = st\<lparr>mustacheStatement := Some ms1\<rparr>;
                      st2 = (if textLeft (mprops ms1) \<noteq> []
                             then consumeNode st1 (Raw (textLeft (mprops ms1)) (mstartPosition ms1))
                             else st1);
                      st3 = (consumeNode st2 (getMustacheNode (mprops ms1) (mstartPosition ms1)))
                              \<lparr>mustacheStatement := None\<rparr>
                  in if textRight (mprops ms1) \<noteq> [] then processText td st3 (textRight (mprops ms1))
                     else Inr (consumeNode st3 (getBlankLineNode st3)))))"
  by pat_completeness auto

lemma consumeNode_fields [simp]:
  "blockStatement (consumeNode st n) = blockStatement st"
  "mustacheStatement (consumeNode st n) = mustacheStatement st"
  "line (consumeNode st n) = line st"
  by (simp_all add: consumeNode_def)

lemma pending_new [simp]: "pending (new_MustacheStatement l) = 0"
  by (simp add: pending_def new_MustacheStatement_def new_CharBucket_def)

termination processText
proof (relation "measure (\<lambda>x. case x of
          Inl (td, st, text) \<Rightarrow> 2 * (length text + (if isSeeking_mustache (mustacheStatement st)
                                                     then pending_of (mustacheStatement st) else 0)) + 1
        | Inr (td, st, text) \<Rightarrow> 2 * (length text + pending_of (mustacheStatement st)))",
    goal_cases)
  case 1
  show ?case by simp
next
  case (2 td st tx)
  then show ?case by simp
next
  case (3 td st tx)
  then show ?case by (simp add: pending_of_def)
next
  case (4 td st tx ms ms1 st1 st2 st3)
  from 4(2,3,7) mfeed_textRight_bound [of ms tx ms1]
  have "length (textRight (mprops ms1)) < length tx + pending ms"
    by (simp add: isSeeked_mustache_def)
  with 4(1) show ?case
    by (simp add: pending_of_def isSeeking_mustache_def 4(6))
qed

subsection \<open>parse\<close>

text \<open>
  The \<open>while (lines.length)\<close> loop of \<open>parse\<close>: the line counter is incremented, then the
  line is processed; an error ends the parse.
\<close>

fun parse_lines :: "TagsDef \<Rightarrow> Tokenizer \<Rightarrow> string list \<Rightarrow> error + Tokenizer" where
  "parse_lines td st [] = Inr st"
| "parse_lines td st (l # ls) =
     (case processText td (st\<lparr>line := line st + 1\<rparr>) l of
        Inl e \<Rightarrow> Inl e
      | Inr st1 \<Rightarrow> parse_lines td st1 ls)"

text \<open>
  The two statements of \<open>parse\<close> after the loop: a statement that is still open is
  consumed as a raw node.
\<close>

definition parse_eof :: "Tokenizer \<Rightarrow> Tokenizer" where
  "parse_eof st =
     (let st1 = (case blockStatement st of
                   None \<Rightarrow> st
                 | Some bs \<Rightarrow>
                     (let a = (consumeNode st (getRawNode st (CHR ''@'' # raw (tprops bs))))
                                \<lparr>blockStatement := None\<rparr>
                      in consumeNode a (getBlankLineNode a)))
      in case mustacheStatement st1 of
           None \<Rightarrow> st1
         | Some ms \<Rightarrow>
             (let a = st1\<lparr>mustacheStatement := None\<rparr>;
                  b = consumeNode a (getRawNode a
                        (textLeft (mprops ms) @ raw (mprops ms) @ textRight (mprops ms)))
              in consumeNode b (getBlankLineNode b)))"

definition parse :: "TagsDef \<Rightarrow> string \<Rightarrow> error + Tokenizer" where
  "parse td template =
     (case parse_lines td new_Tokenizer (split_EOL template) of
        Inl e \<Rightarrow> Inl e
      | Inr st \<Rightarrow> Inr (parse_eof st))"

subsection \<open>Unfolding the mutual recursion\<close>

text \<open>No statement is open.\<close>

definition idle :: "Tokenizer \<Rightarrow> bool" where
  "idle st = (blockStatement st = None \<and> mustacheStatement st = None)"


text \<open>The state in which a closed mustache statement leaves the tokenizer before its
  right-hand text is classified: the left text and the mustache node are consumed.\<close>

definition emit_mustache :: "Tokenizer \<Rightarrow> MustacheStatement \<Rightarrow> Tokenizer" where
  "emit_mustache st ms1 =
     (consumeNode
        (if textLeft (mprops ms1) \<noteq> []
         then consumeNode (st\<lparr>mustacheStatement := Some ms1\<rparr>)
                (Raw (textLeft (mprops ms1)) (mstartPosition ms1))
         else st\<lparr>mustacheStatement := Some ms1\<rparr>)
        (getMustacheNode (mprops ms1) (mstartPosition ms1)))\<lparr>mustacheStatement := None\<rparr>"

lemma feedTextToMustacheStatement_eq:
  assumes "mustacheStatement st = Some ms" and "mfeed ms tx = Inr ms1"
  shows "feedTextToMustacheStatement td st tx =
           (if mseeking ms1 then Inr (st\<lparr>mustacheStatement := Some ms1\<rparr>)
            else if textRight (mprops ms1) \<noteq> []
                 then processText td (emit_mustache st ms1) (textRight (mprops ms1))
                 else Inr (consumeNode (emit_mustache st ms1) (getBlankLineNode (emit_mustache st ms1))))"
  using assms by (simp add: isSeeked_mustache_def emit_mustache_def Let_def)

lemma feedTextToMustacheStatement_Inr:
  assumes "feedTextToMustacheStatement td st tx = Inr st'"
  obtains ms ms1 where "mustacheStatement st = Some ms" "mfeed ms tx = Inr ms1"
    "feedTextToMustacheStatement td st tx =
           (if mseeking ms1 then Inr (st\<lparr>mustacheStatement := Some ms1\<rparr>)
            else if textRight (mprops ms1) \<noteq> []
                 then processText td (emit_mustache st ms1) (textRight (mprops ms1))
                 else Inr (consumeNode (emit_mustache st ms1) (getBlankLineNode (emit_mustache st ms1))))"
proof -
  from assms obtain ms where ms: "mustacheStatement st = Some ms"
    by (cases "mustacheStatement st") auto
  with assms obtain ms1 where ms1: "mfeed ms tx = Inr ms1"
    by (cases "mfeed ms tx") auto
  from feedTextToMustacheStatement_eq [OF ms ms1] ms ms1 show ?thesis by (rule that [rotated 2])
qed

lemma emit_mustache_fields [simp]:
  "blockStatement (emit_mustache st ms1) = blockStatement st"
  "mustacheStatement (emit_mustache st ms1) = None"
  "line (emit_mustache st ms1) = line st"
  by (simp_all add: emit_mustache_def)

text \<open>The state in which an ended tag statement leaves the tokenizer.\<close>

definition emit_tag :: "Tokenizer \<Rightarrow> TagStatement \<Rightarrow> TagDef \<Rightarrow> Tokenizer" where
  "emit_tag st bs1 d =
     (consumeNode
        (if block d = Some True
         then st\<lparr>openedTags := openedTags st @ [getTagNode (tprops bs1) (tstartPosition bs1)]\<rparr>
         else consumeNode st (node_of (getTagNode (tprops bs1) (tstartPosition bs1))))
        (Newline (line st)))\<lparr>blockStatement := None\<rparr>"

lemma emit_tag_fields [simp]:
  "blockStatement (emit_tag st bs1 d) = None"
  "mustacheStatement (emit_tag st bs1 d) = mustacheStatement st"
  "line (emit_tag st bs1 d) = line st"
  by (simp_all add: emit_tag_def)

lemma feedTextToBlockStatement_eq:
  assumes "blockStatement st = Some bs" and "tfeed bs tx = Inr bs1"
  shows "feedTextToBlockStatement td st tx =
           (if tseeking bs1 then Inr (st\<lparr>blockStatement := Some bs1\<rparr>)
            else (case td (name (tprops bs1)) of
                    None \<Rightarrow> Inl TypeError
                  | Some d \<Rightarrow> Inr (emit_tag st bs1 d)))"
  using assms
  by (simp add: feedTextToBlockStatement_def isSeeked_block_def emit_tag_def Let_def
      getBlankLineNode_def consumeNode_def split: option.splits)

lemma feedTextToBlockStatement_Inr:
  assumes "feedTextToBlockStatement td st tx = Inr st'"
  obtains bs bs1 where "blockStatement st = Some bs" "tfeed bs tx = Inr bs1"
    "tseeking bs1 \<Longrightarrow> st' = st\<lparr>blockStatement := Some bs1\<rparr>"
    "\<not> tseeking bs1 \<Longrightarrow> \<exists>d. td (name (tprops bs1)) = Some d \<and> st' = emit_tag st bs1 d"
proof -
  from assms obtain bs where bs: "blockStatement st = Some bs"
    by (cases "blockStatement st") (auto simp: feedTextToBlockStatement_def)
  with assms obtain bs1 where bs1: "tfeed bs tx = Inr bs1"
    by (cases "tfeed bs tx") (auto simp: feedTextToBlockStatement_def)
  from assms have a: "tseeking bs1 \<Longrightarrow> st' = st\<lparr>blockStatement := Some bs1\<rparr>"
    unfolding feedTextToBlockStatement_eq [OF bs bs1] by simp
  from assms have b: "\<not> tseeking bs1 \<Longrightarrow> \<exists>d. td (name (tprops bs1)) = Some d \<and> st' = emit_tag st bs1 d"
    unfolding feedTextToBlockStatement_eq [OF bs bs1] by (cases "td (name (tprops bs1))") auto
  from bs bs1 a b show ?thesis by (rule that)
qed

declare processText.simps [simp del] feedTextToMustacheStatement.simps [simp del]


subsection \<open>At most one open statement\<close>

text \<open>At most one statement is open, and an open statement is seeking.\<close>

definition one_open :: "Tokenizer \<Rightarrow> bool" where
  "one_open st =
     ((\<forall>bs. blockStatement st = Some bs \<longrightarrow> tseeking bs \<and> mustacheStatement st = None)
      \<and> (\<forall>ms. mustacheStatement st = Some ms \<longrightarrow> mseeking ms))"

lemma one_open_consumeNode [simp]: "one_open (consumeNode st n) = one_open st"
  by (simp add: one_open_def)

lemma idle_one_open: "idle st \<Longrightarrow> one_open st"
  by (simp add: idle_def one_open_def)

lemma feedTextToBlockStatement_one_open:
  assumes "feedTextToBlockStatement td st tx = Inr st'" and "mustacheStatement st = None"
  shows "one_open st'"
  using assms(1)
proof (cases rule: feedTextToBlockStatement_Inr)
  case (1 bs bs1)
  show ?thesis
  proof (cases "tseeking bs1")
    case True
    with 1(3) assms(2) show ?thesis by (simp add: one_open_def)
  next
    case False
    with 1(4) assms(2) show ?thesis by (auto simp: one_open_def)
  qed
qed

lemma processText_one_open_aux:
  "(one_open st \<longrightarrow> (\<forall>st'. processText td st tx = Inr st' \<longrightarrow> one_open st'))"
  "(blockStatement st = None \<longrightarrow> (\<forall>st'. feedTextToMustacheStatement td st tx = Inr st' \<longrightarrow> one_open st'))"
proof (induction td st tx rule: processText_feedTextToMustacheStatement.induct)
  case (1 td st tx)
  show ?case
  proof (intro impI allI)
    fix st'
    assume g: "one_open st" and p: "processText td st tx = Inr st'"
    show "one_open st'"
    proof (cases "isSeeking_block (blockStatement st)")
      case True
      with g have m: "mustacheStatement st = None"
        by (auto simp: one_open_def isSeeking_block_def split: option.splits)
      from True p have "feedTextToBlockStatement td st tx = Inr st'"
        by (simp add: processText.simps)
      from feedTextToBlockStatement_one_open [OF this m] show ?thesis .
    next
      case False
      note nb = this
      with g have b: "blockStatement st = None"
        by (auto simp: one_open_def isSeeking_block_def split: option.splits)
      show ?thesis
      proof (cases "isSeeking_mustache (mustacheStatement st)")
        case True
        with nb p have "feedTextToMustacheStatement td st tx = Inr st'"
          by (simp add: processText.simps)
        with "1.IH"(1) [OF nb True] b show ?thesis by blast
      next
        case False
        note nm = this
        with g b have m: "mustacheStatement st = None"
          by (auto simp: one_open_def isSeeking_mustache_def split: option.splits)
        show ?thesis
        proof (cases "getTag td tx")
          case (Some tag)
          show ?thesis
          proof (cases "escaped tag = Some True")
            case True
            with nb nm Some p g show ?thesis
              by (auto simp: processText.simps Let_def)
          next
            case False
            with nb nm Some p have "feedTextToBlockStatement td
                    (st\<lparr>blockStatement := Some (new_TagStatement (line st)
                          (case tag_seekable tag of None \<Rightarrow> True | Some b \<Rightarrow> b))\<rparr>)
                    (TRIM_TAG_REGEX_replace (trim tx)) = Inr st'"
              by (simp add: processText.simps)
            from feedTextToBlockStatement_one_open [OF this] m show ?thesis by simp
          qed
        next
          case None
          show ?thesis
          proof (cases "isClosingTag st tx")
            case True
            with nb nm None p b m show ?thesis
              by (auto simp: processText.simps Let_def one_open_def)
          next
            case False
            note nc = this
            show ?thesis
            proof (cases "MUSTACHE_REGEX_test tx")
              case True
              with nb nm None nc p have "feedTextToMustacheStatement td
                    (st\<lparr>mustacheStatement := Some (new_MustacheStatement (line st))\<rparr>) tx = Inr st'"
                by (simp add: processText.simps)
              with "1.IH"(2) [OF nb nm None nc True] b show ?thesis by simp
            next
              case False
              with nb nm None nc p g show ?thesis
                by (auto simp: processText.simps Let_def)
            qed
          qed
        qed
      qed
    qed
  qed
next
  case (2 td st tx)
  show ?case
  proof (intro impI allI)
    fix st'
    assume b: "blockStatement st = None" and f: "feedTextToMustacheStatement td st tx = Inr st'"
    from f show "one_open st'"
    proof (cases rule: feedTextToMustacheStatement_Inr)
      case (1 ms ms1)
      show ?thesis
      proof (cases "mseeking ms1")
        case True
        with 1(3) f b show ?thesis by (auto simp: one_open_def)
      next
        case False
        note ns = this
        show ?thesis
        proof (cases "textRight (mprops ms1) = []")
          case True
          with 1(3) f b ns show ?thesis by (auto simp: one_open_def)
        next
          case False
          with 1(3) f ns have p: "processText td (emit_mustache st ms1) (textRight (mprops ms1)) = Inr st'"
            by simp
          have o: "one_open (emit_mustache st ms1)" using b by (simp add: one_open_def)
          have e: "emit_mustache st ms1 = consumeNode
                  (if textLeft (mprops ms1) \<noteq> []
                   then consumeNode (st\<lparr>mustacheStatement := Some ms1\<rparr>)
                      (Raw (textLeft (mprops ms1)) (mstartPosition ms1))
                   else st\<lparr>mustacheStatement := Some ms1\<rparr>)
                  (getMustacheNode (mprops ms1) (mstartPosition ms1))\<lparr>mustacheStatement := None\<rparr>"
            by (simp add: emit_mustache_def)
          from "2.IH" [OF 1(1,2) _ refl refl e False] ns o p show ?thesis
            by (simp add: isSeeked_mustache_def)
        qed
      qed
    qed
  qed
qed

lemma processText_one_open:
  "one_open st \<Longrightarrow> processText td st tx = Inr st' \<Longrightarrow> one_open st'"
  using processText_one_open_aux(1) by blast

lemma parse_lines_one_open:
  "one_open st \<Longrightarrow> parse_lines td st ls = Inr st' \<Longrightarrow> one_open st'"
proof (induction ls arbitrary: st)
  case Nil
  then show ?case by simp
next
  case (Cons l ls)
  from Cons.prems(2) obtain st1 where p: "processText td (st\<lparr>line := line st + 1\<rparr>) l = Inr st1"
    and r: "parse_lines td st1 ls = Inr st'"
    by (auto split: sum.splits)
  from Cons.prems(1) have "one_open (st\<lparr>line := line st + 1\<rparr>)" by (simp add: one_open_def)
  from processText_one_open [OF this p] Cons.IH r show ?case by blast
qed

section \<open>Tag tables of the examples\<close>

text \<open>A block tag \<open>if\<close>, a second block tag \<open>each\<close>, and an inline tag \<open>include\<close> that
  takes no parenthesised argument.\<close>

definition td_if :: TagsDef where
  "td_if = [''if'' \<mapsto> \<lparr>block = Some True, tag_seekable = None, escaped = None\<rparr>]"

definition td_tags :: TagsDef where
  "td_tags = [''if'' \<mapsto> \<lparr>block = Some True, tag_seekable = None, escaped = None\<rparr>,
              ''each'' \<mapsto> \<lparr>block = Some True, tag_seekable = Some True, escaped = None\<rparr>,
              ''include'' \<mapsto> \<lparr>block = None, tag_seekable = Some False, escaped = None\<rparr>]"

section \<open>Whitespace collapsing of the CONTROLLED bucket\<close>

text \<open>
  The specification of the collapse, in its own words: every maximal run of consecutive
  whitespace characters is replaced by the first character of the run.
\<close>

fun collapse_ws :: "string \<Rightarrow> string" where
  "collapse_ws [] = []"
| "collapse_ws [c] = [c]"
| "collapse_ws (c # d # cs) =
     (if is_space c \<and> is_space d then collapse_ws (c # cs) else c # collapse_ws (d # cs))"

text \<open>
  What a bucket appends for the characters \<open>cs\<close> when the previously accepted character
  is \<open>l\<close> (the empty string before anything was accepted).
\<close>

fun collapse_after :: "string \<Rightarrow> string \<Rightarrow> string" where
  "collapse_after l [] = []"
| "collapse_after l (c # cs) =
     (if whitespace [c] \<and> whitespace l then collapse_after l cs else c # collapse_after [c] cs)"

lemma feed_all_controlled:
  "whitespace_mode b = WS_CONTROLLED \<Longrightarrow>
     chars (feed_all b cs) = chars b @ collapse_after (lastChar b) cs
     \<and> whitespace_mode (feed_all b cs) = WS_CONTROLLED"
  unfolding feed_all_def
  by (induction cs arbitrary: b) (auto simp: feed_def)

lemma collapse_ws_Cons: "collapse_ws (c # cs) = c # collapse_after [c] cs"
  by (induction cs arbitrary: c) (auto simp: whitespace_def)

lemma collapse_after_Nil: "collapse_after [] cs = collapse_ws cs"
  by (cases cs) (auto simp: whitespace_def collapse_ws_Cons)

lemma feed_all_append: "feed_all b (xs @ ys) = feed_all (feed_all b xs) ys"
  by (simp add: feed_all_def)

text \<open>
  Claim C8. For every sequence of characters fed one at a time to a CharBucket in
  CONTROLLED mode, also when the characters arrive in separate batches \<open>xs\<close> and then
  \<open>ys\<close>, \<open>get\<close> returns the whole input with each maximal run of whitespace replaced by
  the first character of the run.
\<close>

theorem C8_controlled_collapse:
  "get (feed_all (feed_all (new_CharBucket WS_CONTROLLED) xs) ys) = collapse_ws (xs @ ys)"
proof -
  have "chars (feed_all (new_CharBucket WS_CONTROLLED) (xs @ ys)) = collapse_ws (xs @ ys)"
    using feed_all_controlled [of "new_CharBucket WS_CONTROLLED" "xs @ ys"]
    by (simp add: new_CharBucket_def collapse_after_Nil)
  then show ?thesis by (simp add: get_def feed_all_append)
qed

section \<open>Reachable tag statements and the seeking flag\<close>

text \<open>
  The states of a tag statement that the class can reach: the constructor, and every
  successful \<open>feed\<close> from a reachable state.
\<close>

inductive reachable_tag :: "TagStatement \<Rightarrow> bool" where
  reachable_new: "reachable_tag (new_TagStatement pos sk)"
| reachable_feed: "reachable_tag s \<Longrightarrow> tfeed s ln = Inr s' \<Longrightarrow> reachable_tag s'"

text \<open>
  The invariant of reachable statements: a statement ends only after it has started, the
  buckets exist until it ends, and the current field follows the \<open>started\<close> flag.
\<close>

definition tag_inv :: "TagStatement \<Rightarrow> bool" where
  "tag_inv s = ((tended s \<longrightarrow> tstarted s) \<and> (\<not> tended s \<longrightarrow> tinternalProps s \<noteq> None)
     \<and> (\<not> tended s \<longrightarrow> tcurrentProp s = (if tstarted s then F_jsArg else F_name)))"



lemma startStatement_fields:
  "startStatement s = Inr s1 \<Longrightarrow>
     tstarted s1 \<and> tcurrentProp s1 = F_jsArg \<and> tended s1 = tended s
     \<and> tinternalProps s1 = tinternalProps s \<and> tinternalProps s \<noteq> None
     \<and> internalParens s1 = internalParens s \<and> seekable s1 = seekable s"
  by (auto simp: startStatement_def tsetProp_def split: option.splits TagField.splits)

lemma feedChar_fields:
  "feedChar s c = Inr s1 \<Longrightarrow>
     tstarted s1 = tstarted s \<and> tcurrentProp s1 = tcurrentProp s \<and> tended s1 = tended s
     \<and> tinternalProps s1 \<noteq> None \<and> seekable s1 = seekable s"
  by (auto simp: feedChar_def Let_def split: option.splits TagField.splits if_splits)

lemma endStatement_fields:
  "endStatement s c = Inr s1 \<Longrightarrow> tstarted s1 \<and> tended s1 \<and> tinternalProps s1 = None"
  by (auto simp: endStatement_def tsetProp_def split: option.splits TagField.splits if_splits)

lemma feedSeekable_loop_inv:
  "tag_inv s \<Longrightarrow> \<not> tended s \<Longrightarrow> feedSeekable_loop s cs = Inr s' \<Longrightarrow> tag_inv s'"
proof (induction s cs rule: feedSeekable_loop.induct)
  case (1 s)
  then show ?case by simp
next
  case (2 s c cs)
  show ?case
  proof (cases "isStartOfStatement s c")
    case True
    then obtain s1 where s1: "startStatement s = Inr s1" and l: "feedSeekable_loop s1 cs = Inr s'"
      using "2.prems"(3) by (auto split: sum.splits)
    from startStatement_fields [OF s1] "2.prems"(1,2)
    have "tag_inv s1" "\<not> tended s1" by (auto simp: tag_inv_def)
    with "2.IH"(1) [OF True s1] l show ?thesis by blast
  next
    case False
    note ns = this
    show ?thesis
    proof (cases "isEndOfStatement s c")
      case True
      with ns "2.prems"(3) have "endStatement s c = Inr s'"
        by (auto simp: ensureNoMoreCharsToFeed_def split: sum.splits if_splits)
      from endStatement_fields [OF this] show ?thesis by (simp add: tag_inv_def)
    next
      case False
      then obtain s1 where s1: "feedChar s c = Inr s1" and l: "feedSeekable_loop s1 cs = Inr s'"
        using ns "2.prems"(3) by (auto split: sum.splits)
      from feedChar_fields [OF s1] "2.prems"(1,2)
      have "tag_inv s1" "\<not> tended s1" by (auto simp: tag_inv_def)
      with "2.IH"(2) [OF ns False s1] l show ?thesis by blast
    qed
  qed
qed

lemma recordRaw_fields [simp]:
  "seekable (recordRaw s ln) = seekable s"
  "tstarted (recordRaw s ln) = tstarted s"
  "tended (recordRaw s ln) = tended s"
  "tcurrentProp (recordRaw s ln) = tcurrentProp s"
  "internalParens (recordRaw s ln) = internalParens s"
  "tinternalProps (recordRaw s ln) = tinternalProps s"
  by (simp_all add: recordRaw_def)

lemma tfeed_Inr:
  assumes "tfeed s ln = Inr s'"
  shows "\<not> tended s"
    and "seekable s \<Longrightarrow> \<exists>s1. feedSeekable_loop (recordRaw s ln) ln = Inr s1
            \<and> s' = (if \<not> tseeking s1 then s1\<lparr>tinternalProps := None\<rparr> else s1)"
    and "\<not> seekable s \<Longrightarrow> s' = feedNonSeekable (recordRaw s ln) ln"
proof -
  show ne: "\<not> tended s" using assms by (simp add: tfeed_def split: if_splits)
  show "\<not> seekable s \<Longrightarrow> s' = feedNonSeekable (recordRaw s ln) ln"
    using assms ne by (simp add: tfeed_def Let_def)
  assume "seekable s"
  with assms ne have "feedSeekable (recordRaw s ln) ln = Inr s'"
    by (simp add: tfeed_def Let_def)
  then show "\<exists>s1. feedSeekable_loop (recordRaw s ln) ln = Inr s1
            \<and> s' = (if \<not> tseeking s1 then s1\<lparr>tinternalProps := None\<rparr> else s1)"
    unfolding feedSeekable_def by (cases "feedSeekable_loop (recordRaw s ln) ln") auto
qed

lemma tfeed_inv: "tag_inv s \<Longrightarrow> tfeed s ln = Inr s' \<Longrightarrow> tag_inv s'"
proof -
  assume a: "tag_inv s" and f: "tfeed s ln = Inr s'"
  note ne = tfeed_Inr(1) [OF f]
  have r: "tag_inv (recordRaw s ln)" "\<not> tended (recordRaw s ln)"
    using a ne by (simp_all add: tag_inv_def)
  show ?thesis
  proof (cases "seekable s")
    case True
    from tfeed_Inr(2) [OF f True] obtain s1 where l: "feedSeekable_loop (recordRaw s ln) ln = Inr s1"
      and s': "s' = (if \<not> tseeking s1 then s1\<lparr>tinternalProps := None\<rparr> else s1)"
      by blast
    from feedSeekable_loop_inv [OF r l] show ?thesis
      unfolding s' by (simp add: tag_inv_def tseeking_def)
  next
    case False
    from tfeed_Inr(3) [OF f False] show ?thesis
      by (simp add: feedNonSeekable_def tag_inv_def)
  qed
qed

lemma reachable_tag_inv: "reachable_tag s \<Longrightarrow> tag_inv s"
proof (induction rule: reachable_tag.induct)
  case (reachable_new pos sk)
  show ?case by (simp add: tag_inv_def new_TagStatement_def)
next
  case (reachable_feed s ln s')
  then show ?case using tfeed_inv by blast
qed

text \<open>
  Claim C3 as stated (seeking = started AND NOT ended) fails on the constructor's state:
  a fresh statement is seeking although it has not started.
\<close>

theorem C3_seeking_counterexample:
  "tseeking (new_TagStatement 1 True)
   \<and> \<not> (tstarted (new_TagStatement 1 True) \<and> \<not> tended (new_TagStatement 1 True))"
  by (simp add: tseeking_def new_TagStatement_def)

text \<open>
  Claim C3, amended. In every reachable state of a TagStatement, \<open>seeking\<close> is true exactly
  when the statement has not both started and ended, which over reachable states is
  exactly when it has not ended.
\<close>

theorem C3_seeking:
  "reachable_tag s \<Longrightarrow>
     (tseeking s \<longleftrightarrow> \<not> (tstarted s \<and> tended s)) \<and> (tseeking s \<longleftrightarrow> \<not> tended s)"
  using reachable_tag_inv [of s] by (auto simp: tseeking_def tag_inv_def)

theorem C3_seeking_witness:
  "reachable_tag (new_TagStatement 1 True)
   \<and> tseeking (new_TagStatement 1 True) \<and> \<not> tended (new_TagStatement 1 True)
   \<and> \<not> tstarted (new_TagStatement 1 True)"
proof -
  have r: "reachable_tag (new_TagStatement 1 True)" by (rule reachable_new)
  from C3_seeking [OF r] r show ?thesis by (simp add: new_TagStatement_def)
qed

section \<open>Trailing characters after the closing parenthesis\<close>

text \<open>
  The closing parenthesis of a statement, in the specification's words: scanning the line
  from the left, the first \<open>(\<close> met while the name is collected opens the argument, a
  \<open>)\<close> met at parenthesis depth zero closes the statement, every other parenthesis
  changes the depth. \<open>closing_rest\<close> returns the field in force at the closing parenthesis
  and the characters that remain on the line after it.
\<close>

fun closing_rest :: "TagField \<Rightarrow> int \<Rightarrow> string \<Rightarrow> (TagField \<times> string) option" where
  "closing_rest f d [] = None"
| "closing_rest f d (c # cs) =
     (if c = OPENING_PAREN \<and> f = F_name then closing_rest F_jsArg d cs
      else if c = CLOSING_PAREN \<and> d = 0 then Some (f, cs)
      else closing_rest f
             (d + (if c = OPENING_PAREN then 1 else 0) - (if c = CLOSING_PAREN then 1 else 0)) cs)"

lemma paren_neq [simp]: "CLOSING_PAREN \<noteq> OPENING_PAREN" "OPENING_PAREN \<noteq> CLOSING_PAREN"
  by (simp_all add: OPENING_PAREN_def CLOSING_PAREN_def)

lemma feedChar_Inr:
  "tinternalProps s \<noteq> None \<Longrightarrow> \<exists>s1. feedChar s c = Inr s1
     \<and> internalParens s1 = internalParens s + (if c = OPENING_PAREN then 1 else 0) - (if c = CLOSING_PAREN then 1 else 0)"
  by (auto simp: feedChar_def Let_def OPENING_PAREN_def CLOSING_PAREN_def split: option.splits TagField.splits)

lemma startStatement_Inr:
  "tinternalProps s \<noteq> None \<Longrightarrow> \<exists>s1. startStatement s = Inr s1"
  by (auto simp: startStatement_def tsetProp_def split: option.splits)

lemma endStatement_Inr:
  "tinternalProps s \<noteq> None \<Longrightarrow> tstarted s \<Longrightarrow> \<exists>s1. endStatement s c = Inr s1"
  by (auto simp: endStatement_def tsetProp_def split: option.splits)

lemma feedSeekable_loop_closing:
  "tag_inv s \<Longrightarrow> \<not> tended s \<Longrightarrow>
   (closing_rest (tcurrentProp s) (internalParens s) cs = None \<longrightarrow>
      (\<exists>s'. feedSeekable_loop s cs = Inr s' \<and> \<not> tended s'))
   \<and> (\<forall>f r. closing_rest (tcurrentProp s) (internalParens s) cs = Some (f, r) \<longrightarrow>
        (if r \<noteq> [] then feedSeekable_loop s cs = Inl (WriteInNewLine r)
         else if f = F_name then feedSeekable_loop s cs = Inl (WrapStatement CLOSING_PAREN)
         else (\<exists>s'. feedSeekable_loop s cs = Inr s' \<and> tended s' \<and> tstarted s')))"
proof (induction s cs rule: feedSeekable_loop.induct)
  case (1 s)
  then show ?case by simp
next
  case (2 s c cs)
  from "2.prems" have ip: "tinternalProps s \<noteq> None"
    and cp: "tcurrentProp s = (if tstarted s then F_jsArg else F_name)"
    by (simp_all add: tag_inv_def)
  show ?case
  proof (cases "isStartOfStatement s c")
    case True
    from startStatement_Inr [OF ip] obtain s1 where s1: "startStatement s = Inr s1" by blast
    from startStatement_fields [OF s1] "2.prems"
    have i1: "tag_inv s1" "\<not> tended s1" by (auto simp: tag_inv_def)
    from startStatement_fields [OF s1] have f1: "tcurrentProp s1 = F_jsArg" "internalParens s1 = internalParens s"
      by simp_all
    have L: "feedSeekable_loop s (c # cs) = feedSeekable_loop s1 cs"
      using True s1 by simp
    have C: "closing_rest (tcurrentProp s) (internalParens s) (c # cs)
              = closing_rest (tcurrentProp s1) (internalParens s1) cs"
      using True f1 by (simp add: isStartOfStatement_def)
    show ?thesis unfolding L C by (rule "2.IH"(1) [OF True s1 i1])
  next
    case False
    note ns = this
    show ?thesis
    proof (cases "isEndOfStatement s c")
      case True
      have L: "feedSeekable_loop s (c # cs)
                = (if cs \<noteq> [] then Inl (WriteInNewLine cs) else endStatement s c)"
        using ns True by (simp add: ensureNoMoreCharsToFeed_def)
      have C: "closing_rest (tcurrentProp s) (internalParens s) (c # cs) = Some (tcurrentProp s, cs)"
        using ns True by (simp add: isStartOfStatement_def isEndOfStatement_def)
      have c: "c = CLOSING_PAREN" using True by (simp add: isEndOfStatement_def)
      show ?thesis
      proof (cases "tstarted s")
        case True
        from endStatement_Inr [OF ip True] obtain s1 where s1: "endStatement s c = Inr s1" by blast
        from endStatement_fields [OF s1] s1 True cp show ?thesis
          unfolding L C by simp
      next
        case False
        with cp c show ?thesis
          unfolding L C by (simp add: endStatement_def)
      qed
    next
      case False
      from feedChar_Inr [OF ip, of c] obtain s1 where s1: "feedChar s c = Inr s1"
        and p1: "internalParens s1 = internalParens s + (if c = OPENING_PAREN then 1 else 0) - (if c = CLOSING_PAREN then 1 else 0)"
        by blast
      from feedChar_fields [OF s1] "2.prems"
      have i1: "tag_inv s1" "\<not> tended s1" by (auto simp: tag_inv_def)
      from feedChar_fields [OF s1] have f1: "tcurrentProp s1 = tcurrentProp s" by simp
      have L: "feedSeekable_loop s (c # cs) = feedSeekable_loop s1 cs"
        using ns False s1 by simp
      have C: "closing_rest (tcurrentProp s) (internalParens s) (c # cs)
                = closing_rest (tcurrentProp s1) (internalParens s1) cs"
        using ns False f1 p1 by (auto simp: isStartOfStatement_def isEndOfStatement_def)
      show ?thesis unfolding L C by (rule "2.IH"(2) [OF ns False s1 i1])
    qed
  qed
qed


lemma tfeed_seekable:
  "seekable s \<Longrightarrow> \<not> tended s \<Longrightarrow> tfeed s ln = feedSeekable (recordRaw s ln) ln"
  by (simp add: tfeed_def Let_def)

lemma tag_inv_recordRaw: "tag_inv (recordRaw s ln) = tag_inv s"
  by (simp add: tag_inv_def)

text \<open>
  Claim C4 as stated fails: a closing parenthesis followed by nothing but whitespace does
  raise the error.
\<close>

theorem C4_trailing_counterexample:
  "seekable (new_TagStatement 1 True)
   \<and> tfeed (new_TagStatement 1 True) ''if(x) '' = Inl (WriteInNewLine '' '')
   \<and> list_all is_space '' ''"
  by (simp add: tfeed_def new_TagStatement_def recordRaw_def feedSeekable_def Let_def
      isStartOfStatement_def isEndOfStatement_def startStatement_def tsetProp_def
      feedChar_def ensureNoMoreCharsToFeed_def OPENING_PAREN_def CLOSING_PAREN_def
      new_CharBucket_def is_space_def)

text \<open>
  Claim C4, amended. \<open>feed\<close> on a reachable seekable statement that has not ended raises the
  error \<open>Write in a new line\<close> on the remaining characters if and only if at least one
  character, whitespace or not, remains on the fed line after the closing parenthesis; a
  line whose closing parenthesis, of a started statement, is its last character completes
  without error and ends the statement.
\<close>

theorem C4_trailing_content:
  assumes "reachable_tag s" and "seekable s" and "\<not> tended s"
  shows "(tfeed s ln = Inl (WriteInNewLine r)
            \<longleftrightarrow> (\<exists>f. closing_rest (tcurrentProp s) (internalParens s) ln = Some (f, r) \<and> r \<noteq> []))
         \<and> (closing_rest (tcurrentProp s) (internalParens s) ln = Some (F_jsArg, [])
            \<longrightarrow> (\<exists>s'. tfeed s ln = Inr s' \<and> tended s' \<and> \<not> tseeking s'))"
proof -
  let ?s = "recordRaw s ln"
  have inv: "tag_inv ?s" "\<not> tended ?s"
    using reachable_tag_inv [OF assms(1)] assms(3) by (simp_all add: tag_inv_recordRaw)
  note loop = feedSeekable_loop_closing [OF inv, of ln, simplified]
  have fd: "tfeed s ln = feedSeekable ?s ln" by (rule tfeed_seekable [OF assms(2,3)])
  show ?thesis
  proof (cases "closing_rest (tcurrentProp s) (internalParens s) ln")
    case None
    with loop obtain s' where "feedSeekable_loop ?s ln = Inr s'" by blast
    with None show ?thesis unfolding fd feedSeekable_def by simp
  next
    case (Some p)
    obtain f r' where p: "p = (f, r')" by (cases p)
    show ?thesis
    proof (cases "r' = []")
      case False
      with loop Some p have "feedSeekable_loop ?s ln = Inl (WriteInNewLine r')" by simp
      with Some p False show ?thesis unfolding fd feedSeekable_def by auto
    next
      case True
      note e = this
      show ?thesis
      proof (cases f)
        case F_name
        with loop Some p e have "feedSeekable_loop ?s ln = Inl (WrapStatement CLOSING_PAREN)" by simp
        with Some p e F_name show ?thesis unfolding fd feedSeekable_def by simp
      next
        case F_jsArg
        with loop Some p e obtain s' where "feedSeekable_loop ?s ln = Inr s'" "tended s'" "tstarted s'"
          by auto
        with Some p e F_jsArg show ?thesis unfolding fd feedSeekable_def by (simp add: tseeking_def)
      qed
    qed
  qed
qed

theorem C4_trailing_content_witness:
  "reachable_tag (new_TagStatement 1 True) \<and> seekable (new_TagStatement 1 True)
   \<and> \<not> tended (new_TagStatement 1 True)
   \<and> tfeed (new_TagStatement 1 True) ''if(x) y'' = Inl (WriteInNewLine '' y'')
   \<and> (\<exists>s'. tfeed (new_TagStatement 1 True) ''if(x)'' = Inr s' \<and> tended s' \<and> \<not> tseeking s')"
proof -
  have r: "reachable_tag (new_TagStatement 1 True)" by (rule reachable_new)
  have s: "seekable (new_TagStatement 1 True)" "\<not> tended (new_TagStatement 1 True)"
    "tcurrentProp (new_TagStatement 1 True) = F_name" "internalParens (new_TagStatement 1 True) = 0"
    by (simp_all add: new_TagStatement_def)
  have c1: "closing_rest F_name 0 ''if(x) y'' = Some (F_jsArg, '' y'')"
    by (simp add: OPENING_PAREN_def CLOSING_PAREN_def)
  have c2: "closing_rest F_name 0 ''if(x)'' = Some (F_jsArg, [])"
    by (simp add: OPENING_PAREN_def CLOSING_PAREN_def)
  have ne: "'' y'' \<noteq> []" by simp
  note T = C4_trailing_content [OF r s(1,2), unfolded s(3,4)]
  from T [of "''if(x) y''" "'' y''"] c1 ne
  have a: "tfeed (new_TagStatement 1 True) ''if(x) y'' = Inl (WriteInNewLine '' y'')" by blast
  from T [of "''if(x)''" "[]"] c2
  have b: "\<exists>s'. tfeed (new_TagStatement 1 True) ''if(x)'' = Inr s' \<and> tended s' \<and> \<not> tseeking s'" by blast
  from r s(1,2) a b show ?thesis by blast
qed

section \<open>Plain text\<close>

text \<open>The nodes of a line that is neither a tag nor a mustache.\<close>

definition raw_line :: "nat \<times> string \<Rightarrow> Node list" where
  "raw_line p = [Raw (snd p) (fst p), Newline (fst p)]"

lemma raw_line_pair [simp]: "raw_line (i, l) = [Raw l i, Newline i]"
  by (simp add: raw_line_def)

lemma processText_plain:
  assumes "idle st" and "openedTags st = []" and "getTag td l = None" and "\<not> MUSTACHE_REGEX_test l"
  shows "processText td st l = Inr (st\<lparr>tokens := tokens st @ [Raw l (line st), Newline (line st)]\<rparr>)"
  using assms
  by (simp add: processText.simps idle_def isSeeking_block_def isSeeking_mustache_def isClosingTag_def
      consumeNode_def getRawNode_def getBlankLineNode_def Let_def)

lemma parse_lines_plain:
  assumes "idle st" and "openedTags st = []"
    and "\<forall>l \<in> set ls. getTag td l = None \<and> \<not> MUSTACHE_REGEX_test l"
  shows "parse_lines td st ls =
           Inr (st\<lparr>tokens := tokens st @ concat (map raw_line (enumerate (Suc (line st)) ls)),
                   line := line st + length ls\<rparr>)"
  using assms
proof (induction ls arbitrary: st)
  case Nil
  then show ?case by simp
next
  case (Cons l ls)
  let ?st0 = "st\<lparr>line := line st + 1\<rparr>"
  let ?st1 = "?st0\<lparr>tokens := tokens ?st0 @ [Raw l (line ?st0), Newline (line ?st0)]\<rparr>"
  have p: "processText td ?st0 l = Inr ?st1"
    using Cons.prems by (intro processText_plain) (simp_all add: idle_def)
  have i: "idle ?st1" "openedTags ?st1 = []"
    using Cons.prems by (simp_all add: idle_def)
  from Cons.prems(3) have r: "\<forall>l \<in> set ls. getTag td l = None \<and> \<not> MUSTACHE_REGEX_test l" by simp
  show ?case
    unfolding parse_lines.simps p sum.case Cons.IH [OF i r]
    by simp
qed

lemma parse_eof_idle: "idle st \<Longrightarrow> parse_eof st = st"
  by (simp add: idle_def parse_eof_def)

text \<open>
  Claim C1. For every template in which no line matches the tag pattern with a known
  identifier (\<open>getTag\<close> returns \<open>null\<close>) and no line contains two consecutive opening
  braces, \<open>parse\<close> succeeds and the tokens are, for each input line in order, one Raw
  node with the line unchanged followed by one Newline node, both numbered with the line.
\<close>

theorem C1_plain_text:
  assumes "\<forall>l \<in> set (split_EOL template). getTag td l = None \<and> \<not> MUSTACHE_REGEX_test l"
  shows "\<exists>st. parse td template = Inr st
            \<and> tokens st = concat (map raw_line (enumerate 1 (split_EOL template)))
            \<and> openedTags st = []"
proof -
  have i: "idle new_Tokenizer" "openedTags new_Tokenizer = []"
    by (simp_all add: idle_def new_Tokenizer_def)
  note pl = parse_lines_plain [OF i assms]
  have "idle (new_Tokenizer\<lparr>tokens := tokens new_Tokenizer @ concat (map raw_line (enumerate (Suc (line new_Tokenizer)) (split_EOL template))),
                   line := line new_Tokenizer + length (split_EOL template)\<rparr>)"
    by (simp add: idle_def new_Tokenizer_def)
  from parse_eof_idle [OF this] show ?thesis
    unfolding parse_def pl by (simp add: new_Tokenizer_def)
qed

theorem C1_plain_text_witness:
  "split_EOL (''a b'' @ [EOL] @ ''@x'') = [''a b'', ''@x'']
   \<and> getTag td_if ''a b'' = None \<and> \<not> MUSTACHE_REGEX_test ''a b''
   \<and> getTag td_if ''@x'' = None \<and> \<not> MUSTACHE_REGEX_test ''@x''
   \<and> (\<exists>st. parse td_if (''a b'' @ [EOL] @ ''@x'') = Inr st
         \<and> tokens st = [Raw ''a b'' 1, Newline 1, Raw ''@x'' 2, Newline 2])"
proof -
  let ?t = "''a b'' @ [EOL] @ ''@x''"
  have s: "split_EOL ?t = [''a b'', ''@x'']" by code_simp
  have g: "getTag td_if ''a b'' = None" "\<not> MUSTACHE_REGEX_test ''a b''"
    "getTag td_if ''@x'' = None" "\<not> MUSTACHE_REGEX_test ''@x''"
    by code_simp+
  then have h: "\<forall>l \<in> set (split_EOL ?t). getTag td_if l = None \<and> \<not> MUSTACHE_REGEX_test l"
    unfolding s by simp
  from C1_plain_text [OF h, unfolded s] have "\<exists>st. parse td_if ?t = Inr st
         \<and> tokens st = [Raw ''a b'' 1, Newline 1, Raw ''@x'' 2, Newline 2]"
    by (auto simp: numeral_2_eq_2)
  with s g show ?thesis by blast
qed

section \<open>Looking up the collected name\<close>

lemma tfeed_nonseekable:
  "tfeed (new_TagStatement l False) ln = Inr (feedNonSeekable (recordRaw (new_TagStatement l False) ln) ln)"
  by (simp add: tfeed_def Let_def new_TagStatement_def recordRaw_def)

text \<open>
  Claim C10. When a tag statement ends, the tokenizer looks the collected name up in the
  tag table and reads \<open>block\<close> of the result: the feed fails with a type error exactly
  when the collected name is not a key of the table. For a non-seekable tag the collected
  name is the whole trimmed remainder of the line, so a line of such a tag whose trimmed
  remainder is not a key of the table makes \<open>processText\<close> fail with a type error.
\<close>

theorem C10_collected_name_lookup:
  "(blockStatement st = Some bs \<and> tfeed bs tx = Inr bs1 \<and> \<not> tseeking bs1 \<longrightarrow>
      (feedTextToBlockStatement td st tx = Inl TypeError \<longleftrightarrow> td (name (tprops bs1)) = None))
   \<and> (\<not> isSeeking_block (blockStatement st) \<and> \<not> isSeeking_mustache (mustacheStatement st)
        \<and> getTag td tx = Some tag \<and> escaped tag \<noteq> Some True \<and> tag_seekable tag = Some False
        \<and> td (trim (TRIM_TAG_REGEX_replace (trim tx))) = None
      \<longrightarrow> processText td st tx = Inl TypeError)"
proof (intro conjI impI)
  assume "blockStatement st = Some bs \<and> tfeed bs tx = Inr bs1 \<and> \<not> tseeking bs1"
  then show "feedTextToBlockStatement td st tx = Inl TypeError \<longleftrightarrow> td (name (tprops bs1)) = None"
    by (simp add: feedTextToBlockStatement_eq split: option.splits)
next
  assume a: "\<not> isSeeking_block (blockStatement st) \<and> \<not> isSeeking_mustache (mustacheStatement st)
        \<and> getTag td tx = Some tag \<and> escaped tag \<noteq> Some True \<and> tag_seekable tag = Some False
        \<and> td (trim (TRIM_TAG_REGEX_replace (trim tx))) = None"
  let ?ln = "TRIM_TAG_REGEX_replace (trim tx)"
  let ?st = "st\<lparr>blockStatement := Some (new_TagStatement (line st) False)\<rparr>"
  let ?bs1 = "feedNonSeekable (recordRaw (new_TagStatement (line st) False) ?ln) ?ln"
  from a have p: "processText td st tx = feedTextToBlockStatement td ?st ?ln"
    by (simp add: processText.simps)
  have b: "blockStatement ?st = Some (new_TagStatement (line st) False)" by simp
  have n: "name (tprops ?bs1) = trim ?ln" "\<not> tseeking ?bs1"
    by (simp_all add: feedNonSeekable_def tseeking_def)
  from a n show "processText td st tx = Inl TypeError"
    unfolding p feedTextToBlockStatement_eq [OF b tfeed_nonseekable] by simp
qed

theorem C10_collected_name_lookup_witness:
  "getTag td_tags ''@include header'' = Some \<lparr>block = None, tag_seekable = Some False, escaped = None\<rparr>
   \<and> td_tags (trim (TRIM_TAG_REGEX_replace (trim ''@include header''))) = None
   \<and> processText td_tags (new_Tokenizer\<lparr>line := 1\<rparr>) ''@include header'' = Inl TypeError
   \<and> parse td_tags ''@include header'' = Inl TypeError"
proof -
  let ?tag = "\<lparr>block = None, tag_seekable = Some False, escaped = None\<rparr>"
  have g: "getTag td_tags ''@include header'' = Some ?tag" by code_simp
  have t: "td_tags (trim (TRIM_TAG_REGEX_replace (trim ''@include header''))) = None" by code_simp
  have i: "\<not> isSeeking_block (blockStatement (new_Tokenizer\<lparr>line := 1\<rparr>))"
    "\<not> isSeeking_mustache (mustacheStatement (new_Tokenizer\<lparr>line := 1\<rparr>))"
    by (simp_all add: new_Tokenizer_def isSeeking_block_def isSeeking_mustache_def)
  have e: "escaped ?tag \<noteq> Some True" "tag_seekable ?tag = Some False" by simp_all
  from C10_collected_name_lookup [of "new_Tokenizer\<lparr>line := 1\<rparr>" _ _ _ td_tags ?tag, THEN conjunct2]
    i g e t
  have p: "processText td_tags (new_Tokenizer\<lparr>line := 1\<rparr>) ''@include header'' = Inl TypeError"
    by blast
  have s: "split_EOL ''@include header'' = [''@include header'']" by code_simp
  have "parse td_tags ''@include header'' = Inl TypeError"
    unfolding parse_def s using p by (simp add: new_Tokenizer_def)
  with g t p show ?thesis by blast
qed

section \<open>End of input with an open block\<close>














section \<open>A closing brace that does not close\<close>



lemma isClosing_False:
  "\<not> fst (isClosing s cs c) \<Longrightarrow> isClosing s cs c = (False, s, cs)"
  by (auto simp: isClosing_def split: if_splits list.splits)


lemma brace_neq [simp]: "CLOSING_BRACE \<noteq> OPENING_BRACE" "OPENING_BRACE \<noteq> CLOSING_BRACE"
  by (simp_all add: OPENING_BRACE_def CLOSING_BRACE_def)







text \<open>A stray \<open>}\<close> that a later \<open>{\<close> balances: the statement ends at the closing run.\<close>

lemma stray_brace_balanced:
  "(case mfeed (new_MustacheStatement 1) ''{{ a } { b }}'' of
      Inl e \<Rightarrow> False
    | Inr s \<Rightarrow> mended s \<and> jsArg (mprops s) = '' a } { b '' \<and> internalBraces s = 0)"
  by code_simp


section \<open>Nested blocks\<close>

subsection \<open>Feeding a tag header\<close>










subsection \<open>The opening and the closing line of a block\<close>













subsection \<open>Blocks opened one inside the other\<close>






text \<open>Consuming a list of nodes, in order.\<close>

definition consume_all :: "Tokenizer \<Rightarrow> Node list \<Rightarrow> Tokenizer" where
  "consume_all st ns = foldl consumeNode st ns"





lemma consume_two_line:
  "(consumeNode (consumeNode (st\<lparr>line := l\<rparr>) x) y) = (consume_all st [x, y])\<lparr>line := l\<rparr>"
  by (simp add: consume_all_def consumeNode_def)


subsection \<open>The tree of nested blocks\<close>

lemma split_EOL_not_Nil [simp]: "split_EOL s \<noteq> []"
  by (induction s) (auto split: list.splits)




text \<open>The depth of a token tree: the longest chain of blocks, each a child of the one before.\<close>

fun depth :: "Node \<Rightarrow> nat" and depth_list :: "Node list \<Rightarrow> nat" where
  "depth (Block l p ch) = Suc (depth_list ch)"
| "depth (Raw v l) = 0"
| "depth (Newline l) = 0"
| "depth (Mustache l p) = 0"
| "depth_list [] = 0"
| "depth_list (n # ns) = max (depth n) (depth_list ns)"







section \<open>Round trip\<close>

subsection \<open>The text a mustache statement stands for\<close>

definition bucketL :: "MustacheStatement \<Rightarrow> string" where
  "bucketL s = (case minternalProps s of None \<Rightarrow> [] | Some bs \<Rightarrow> chars (mbucket_textLeft bs))"

text \<open>The text a statement stands for: what is to the left of the mustache, its raw text
  with the braces, and what is to its right.\<close>

definition content :: "MustacheStatement \<Rightarrow> string" where
  "content s = (if mstarted s then textLeft (mprops s) else bucketL s) @ raw (mprops s) @ bucketR s"

text \<open>The states of a statement inside the loop of \<open>feed\<close>: before the opening braces, inside
  the expression, and after the closing braces.\<close>

definition wfl :: "MustacheStatement \<Rightarrow> bool" where
  "wfl s =
     ((\<exists>bs. minternalProps s = Some bs \<and> whitespace_mode (mbucket_textLeft bs) = WS_ALL
            \<and> whitespace_mode (mbucket_textRight bs) = WS_ALL)
      \<and> textRight (mprops s) = []
      \<and> (if mended s then mstarted s \<and> mcurrentProp s = M_textRight
         else if mstarted s then mcurrentProp s = M_jsArg \<and> bucketR s = [] \<and> raw (mprops s) \<noteq> []
         else mcurrentProp s = M_textLeft \<and> bucketR s = [] \<and> raw (mprops s) = []))"

lemma wfl_buckets:
  "wfl s \<Longrightarrow> \<exists>bs. minternalProps s = Some bs \<and> whitespace_mode (mbucket_textLeft bs) = WS_ALL
            \<and> whitespace_mode (mbucket_textRight bs) = WS_ALL"
  by (simp add: wfl_def)

lemma feed_ALL: "whitespace_mode b = WS_ALL \<Longrightarrow> feed b c = b\<lparr>chars := chars b @ [c]\<rparr>"
  by (simp add: feed_def)

text \<open>Before the opening braces.\<close>

lemma processChar_before:
  assumes "wfl s" and "\<not> mstarted s" and "\<not> mended s"
  shows "\<exists>s' cs'. processChar s cs c = Inr (s', cs') \<and> wfl s' \<and> \<not> mended s'
           \<and> content s' @ cs' = content s @ c # cs \<and> length cs' \<le> length cs
           \<and> mstartPosition s' = mstartPosition s
           \<and> (\<not> mstarted s' \<longrightarrow> cs' = cs \<and> MUSTACHE_REGEX_test (c # cs) = MUSTACHE_REGEX_test cs)
           \<and> bucketR s' = [] \<and> (\<exists>pre. c # cs = pre @ cs')"
proof -
  from wfl_buckets [OF assms(1)] obtain bs where
    bs: "minternalProps s = Some bs" "whitespace_mode (mbucket_textLeft bs) = WS_ALL"
    "whitespace_mode (mbucket_textRight bs) = WS_ALL" by blast
  from assms have ph: "mcurrentProp s = M_textLeft" "bucketR s = []" "raw (mprops s) = []"
    "textRight (mprops s) = []"
    by (simp_all add: wfl_def)
  show ?thesis
  proof (cases "c = OPENING_BRACE \<and> (\<exists>r. cs = OPENING_BRACE # r)")
    case True
    then obtain r where c: "c = OPENING_BRACE" and cs: "cs = OPENING_BRACE # r" by blast
    show ?thesis
    proof (cases "\<exists>r2. r = OPENING_BRACE # r2")
      case True
      then obtain r2 where r: "r = OPENING_BRACE # r2" by blast
      show ?thesis
        using assms(2,3) ph bs
        by (simp add: processChar_def getName_def c cs r Let_def msetProp_def get_def wfl_def
            content_def bucketL_def bucketR_def raw_append_def)
    next
      case False
      then show ?thesis
        using assms(2,3) ph bs
        by (cases r)
           (simp_all add: processChar_def getName_def c cs Let_def msetProp_def get_def wfl_def
            content_def bucketL_def bucketR_def raw_append_def)
    qed
  next
    case False
    then have g: "getName s cs c = (None, s, cs)"
      by (cases cs) (auto simp: getName_def)
    from False have m: "MUSTACHE_REGEX_test (c # cs) = MUSTACHE_REGEX_test cs"
      by (cases cs) auto
    show ?thesis
      using assms(2,3) ph bs g m
      by (simp add: processChar_def Let_def feedCurrent_def feed_ALL wfl_def
          content_def bucketL_def bucketR_def)
  qed
qed

lemma isClosing_True_split:
  assumes "fst (isClosing s cs c)"
  shows "\<exists>x cs1. isClosing s cs c = (True, raw_append s x, cs1) \<and> cs = x @ cs1"
proof -
  from assms have g: "c = CLOSING_BRACE" "internalBraces s = 0"
    by (auto simp: isClosing_def split: if_splits)
  show ?thesis
  proof (cases "name (mprops s) = ''emustache'' \<and> length cs \<ge> 2")
    case True
    with assms g obtain cs2 where cs: "cs = CLOSING_BRACE # CLOSING_BRACE # cs2"
      by (auto simp: isClosing_def split: if_splits list.splits)
    have "isClosing s cs c = (True, raw_append s [CLOSING_BRACE, CLOSING_BRACE], cs2)"
      using True g by (simp add: isClosing_def cs)
    with cs show ?thesis by auto
  next
    case False
    with assms g obtain cs1 where cs: "cs = CLOSING_BRACE # cs1" and n: "name (mprops s) = ''mustache''"
      by (auto simp: isClosing_def split: if_splits list.splits)
    have "isClosing s cs c = (True, raw_append s [CLOSING_BRACE], cs1)"
      using False g n by (simp add: isClosing_def cs)
    with cs show ?thesis by auto
  qed
qed

text \<open>Inside the expression.\<close>

lemma processChar_inside:
  assumes "wfl s" and "mstarted s" and "\<not> mended s"
  shows "\<exists>s' cs'. processChar s cs c = Inr (s', cs') \<and> wfl s' \<and> mstarted s'
           \<and> content s' @ cs' = content s @ c # cs \<and> length cs' \<le> length cs
           \<and> mstartPosition s' = mstartPosition s
           \<and> textLeft (mprops s') = textLeft (mprops s)
           \<and> bucketR s' = [] \<and> (\<exists>pre. c # cs = pre @ cs')"
proof -
  from wfl_buckets [OF assms(1)] obtain bs where
    bs: "minternalProps s = Some bs" "whitespace_mode (mbucket_textLeft bs) = WS_ALL"
    "whitespace_mode (mbucket_textRight bs) = WS_ALL" by blast
  from assms have ph: "mcurrentProp s = M_jsArg" "bucketR s = []" "raw (mprops s) \<noteq> []"
    "textRight (mprops s) = []"
    by (simp_all add: wfl_def)
  let ?s1 = "raw_append s [c]"
  show ?thesis
  proof (cases "fst (isClosing ?s1 cs c)")
    case True
    from isClosing_True_split [OF True]
    obtain x cs1 where i: "isClosing ?s1 cs c = (True, raw_append ?s1 x, cs1)" and e: "cs = x @ cs1"
      by blast
    show ?thesis
      using assms(2,3) ph bs i e
      by (simp add: processChar_def Let_def msetProp_def wfl_def content_def bucketR_def)
  next
    case False
    from isClosing_False [OF False] have i: "isClosing ?s1 cs c = (False, ?s1, cs)" .
    show ?thesis
      using assms(2,3) ph bs i
      by (simp add: processChar_def Let_def feedCurrent_def wfl_def content_def bucketR_def)
  qed
qed

text \<open>After the closing braces.\<close>

lemma processChar_after:
  assumes "wfl s" and "mended s"
  shows "\<exists>s'. processChar s cs c = Inr (s', cs) \<and> wfl s' \<and> mended s'
           \<and> content s' = content s @ [c] \<and> bucketR s' = bucketR s @ [c]
           \<and> mstartPosition s' = mstartPosition s
           \<and> mprops s' = mprops s"
proof -
  from wfl_buckets [OF assms(1)] obtain bs where
    bs: "minternalProps s = Some bs" "whitespace_mode (mbucket_textLeft bs) = WS_ALL"
    "whitespace_mode (mbucket_textRight bs) = WS_ALL" by blast
  from assms have ph: "mcurrentProp s = M_textRight" "mstarted s" "textRight (mprops s) = []"
    by (simp_all add: wfl_def)
  show ?thesis
    using assms(2) ph bs
    by (simp add: processChar_def Let_def feedCurrent_def feed_ALL wfl_def content_def bucketR_def)
qed


lemma processChar_wfl:
  assumes "wfl s"
  shows "\<exists>s' cs'. processChar s cs c = Inr (s', cs') \<and> wfl s'
           \<and> content s' @ cs' = content s @ c # cs
           \<and> mstartPosition s' = mstartPosition s
           \<and> (mstarted s \<longrightarrow> mstarted s' \<and> textLeft (mprops s') = textLeft (mprops s))
           \<and> (\<not> mstarted s' \<longrightarrow> MUSTACHE_REGEX_test (c # cs) = MUSTACHE_REGEX_test cs')
           \<and> (\<exists>pre. bucketR s @ c # cs = pre @ bucketR s' @ cs')"
proof (cases "mended s")
  case True
  have "\<And>s'. wfl s' \<Longrightarrow> mended s' \<Longrightarrow> mstarted s'" by (simp add: wfl_def)
  with processChar_after [OF assms True, of cs c] show ?thesis by auto
next
  case False
  note ne = this
  show ?thesis
  proof (cases "mstarted s")
    case True
    from assms True ne have "bucketR s = []" by (simp add: wfl_def)
    with processChar_inside [OF assms True ne, of cs c] show ?thesis by auto
  next
    case False
    from assms False ne have "bucketR s = []" by (simp add: wfl_def)
    with processChar_before [OF assms False ne, of cs c] False show ?thesis by auto
  qed
qed

lemma mfeed_loop_wfl:
  "wfl s \<Longrightarrow>
     \<exists>s2. mfeed_loop s cs = Inr s2 \<and> wfl s2 \<and> content s2 = content s @ cs
        \<and> mstartPosition s2 = mstartPosition s
        \<and> (mstarted s \<longrightarrow> mstarted s2 \<and> textLeft (mprops s2) = textLeft (mprops s))
        \<and> (MUSTACHE_REGEX_test cs \<longrightarrow> mstarted s2)
        \<and> (\<exists>pre. bucketR s @ cs = pre @ bucketR s2)"
proof (induction s cs rule: mfeed_loop.induct)
  case (1 s)
  then show ?case by simp
next
  case (2 s c cs)
  from processChar_wfl [OF "2.prems", of cs c] obtain s1 cs1 pre1 where
    p: "processChar s cs c = Inr (s1, cs1)" and w: "wfl s1"
    and c: "content s1 @ cs1 = content s @ c # cs"
    and sp: "mstartPosition s1 = mstartPosition s"
    and st: "mstarted s \<longrightarrow> mstarted s1 \<and> textLeft (mprops s1) = textLeft (mprops s)"
    and rx: "\<not> mstarted s1 \<longrightarrow> MUSTACHE_REGEX_test (c # cs) = MUSTACHE_REGEX_test cs1"
    and su: "bucketR s @ c # cs = pre1 @ bucketR s1 @ cs1"
    by blast
  from "2.IH" [OF p refl w] obtain s2 pre2 where
    l: "mfeed_loop s1 cs1 = Inr s2" and w2: "wfl s2" and c2: "content s2 = content s1 @ cs1"
    and sp2: "mstartPosition s2 = mstartPosition s1"
    and st2: "mstarted s1 \<longrightarrow> mstarted s2 \<and> textLeft (mprops s2) = textLeft (mprops s1)"
    and rx2: "MUSTACHE_REGEX_test cs1 \<longrightarrow> mstarted s2"
    and su2: "bucketR s1 @ cs1 = pre2 @ bucketR s2"
    by blast
  have "mfeed_loop s (c # cs) = Inr s2" using p l by simp
  moreover have "content s2 = content s @ c # cs" using c c2 by simp
  moreover have "mstartPosition s2 = mstartPosition s" using sp sp2 by simp
  moreover have "mstarted s \<longrightarrow> mstarted s2 \<and> textLeft (mprops s2) = textLeft (mprops s)"
    using st st2 by auto
  moreover have "MUSTACHE_REGEX_test (c # cs) \<longrightarrow> mstarted s2"
    using rx rx2 st2 by auto
  moreover have "\<exists>pre. bucketR s @ c # cs = pre @ bucketR s2"
    using su su2 by (intro exI [of _ "pre1 @ pre2"]) simp
  ultimately show ?case using w2 by blast
qed

lemma mfeed_wfl:
  assumes "wfl ms" and "\<not> mended ms" and "mstarted ms \<or> MUSTACHE_REGEX_test tx"
  shows "\<exists>ms1. mfeed ms tx = Inr ms1 \<and> mstarted ms1 \<and> mstartPosition ms1 = mstartPosition ms
           \<and> (if mended ms1
               then textLeft (mprops ms1) @ raw (mprops ms1) @ textRight (mprops ms1)
                      = (if mstarted ms then content ms @ [EOL] else content ms) @ tx
                    \<and> (\<exists>pre. tx = pre @ textRight (mprops ms1))
               else wfl ms1
                    \<and> content ms1 = (if mstarted ms then content ms @ [EOL] else content ms) @ tx)"
proof -
  let ?s1 = "raw_append ms (if raw (mprops ms) \<noteq> [] then [EOL] else [])"
  from assms(1,2) have r: "raw (mprops ms) \<noteq> [] \<longleftrightarrow> mstarted ms" and b: "bucketR ms = []"
    by (auto simp: wfl_def split: if_splits)
  have w1: "wfl ?s1" using assms(1,2) by (auto simp: wfl_def split: if_splits)
  have c1: "content ?s1 = (if mstarted ms then content ms @ [EOL] else content ms)"
    using r b by (simp add: content_def bucketL_def)
  from mfeed_loop_wfl [OF w1, of tx] obtain s2 pre where
    l: "mfeed_loop ?s1 tx = Inr s2" and w2: "wfl s2" and c2: "content s2 = content ?s1 @ tx"
    and sp: "mstartPosition s2 = mstartPosition ?s1"
    and st: "mstarted ?s1 \<longrightarrow> mstarted s2"
    and rx: "MUSTACHE_REGEX_test tx \<longrightarrow> mstarted s2"
    and su: "bucketR ?s1 @ tx = pre @ bucketR s2"
    by blast
  from st rx assms(3) have s2s: "mstarted s2" by auto
  show ?thesis
  proof (cases "mended s2")
    case False
    with s2s have "mseeking s2" by (simp add: mseeking_def)
    with l assms(2) have "mfeed ms tx = Inr s2" by (simp add: mfeed_def Let_def)
    with False s2s w2 c2 c1 sp show ?thesis by simp
  next
    case True
    then have ns: "\<not> mseeking s2" by (simp add: mseeking_def)
    from w2 True obtain bs where bs: "minternalProps s2 = Some bs" and cp: "mcurrentProp s2 = M_textRight"
      by (auto simp: wfl_def)
    let ?s3 = "s2\<lparr>mprops := (mprops s2)\<lparr>textRight := get (mbucket_textRight bs)\<rparr>\<rparr>"
    have sp3: "msetProp s2 = Inr ?s3" using bs cp by (simp add: msetProp_def)
    have f: "mfeed ms tx = Inr (?s3\<lparr>minternalProps := None\<rparr>)"
      using l assms(2) ns sp3 by (simp add: mfeed_def Let_def)
    have br: "bucketR s2 = get (mbucket_textRight bs)" using bs by (simp add: bucketR_def get_def)
    have "textLeft (mprops s2) @ raw (mprops s2) @ bucketR s2 = content ?s1 @ tx"
      using c2 s2s by (simp add: content_def)
    moreover from su b have "tx = pre @ bucketR s2" by simp
    ultimately show ?thesis
      unfolding f using True s2s sp c1 br by auto
  qed
qed

subsection \<open>Reconstruction of a template without tags\<close>

text \<open>
  The reconstruction of the specification: the values of the Raw nodes and the raw
  fields of the Mustache nodes of the token tree, in order, with one line break for each
  Newline node.
\<close>

fun reconstruct :: "Node \<Rightarrow> string" and reconstruct_list :: "Node list \<Rightarrow> string" where
  "reconstruct (Raw v l) = v"
| "reconstruct (Newline l) = [EOL]"
| "reconstruct (Mustache l p) = raw p"
| "reconstruct (Block l p ch) = reconstruct_list ch"
| "reconstruct_list [] = []"
| "reconstruct_list (n # ns) = reconstruct n @ reconstruct_list ns"

lemma reconstruct_list_append [simp]:
  "reconstruct_list (xs @ ys) = reconstruct_list xs @ reconstruct_list ys"
  by (induction xs) simp_all

text \<open>No remainder of the line is taken for a tag.\<close>

fun no_tag_within :: "TagsDef \<Rightarrow> string \<Rightarrow> bool" where
  "no_tag_within td [] = True"
| "no_tag_within td (c # cs) = (getTag td (c # cs) = None \<and> no_tag_within td cs)"

lemma getTag_Nil [simp]: "getTag td [] = None"
  by (simp add: getTag_def trim_def TAG_REGEX_exec_def)

lemma no_tag_within_getTag: "no_tag_within td s \<Longrightarrow> getTag td s = None"
  by (cases s) simp_all

lemma no_tag_within_suffix: "no_tag_within td (pre @ s) \<Longrightarrow> no_tag_within td s"
  by (induction pre) simp_all

text \<open>The text that an open mustache statement holds back from the tokens.\<close>

definition held :: "Tokenizer \<Rightarrow> string" where
  "held st = (case mustacheStatement st of None \<Rightarrow> [] | Some ms \<Rightarrow> content ms @ [EOL])"

text \<open>No tag statement, no open block, and a mustache statement, if any, inside its
  expression.\<close>

definition flat :: "Tokenizer \<Rightarrow> bool" where
  "flat st =
     (blockStatement st = None \<and> openedTags st = []
      \<and> (\<forall>ms. mustacheStatement st = Some ms \<longrightarrow> wfl ms \<and> mstarted ms \<and> \<not> mended ms))"

lemma wfl_new: "wfl (new_MustacheStatement l)" "content (new_MustacheStatement l) = []"
  "\<not> mstarted (new_MustacheStatement l)" "\<not> mended (new_MustacheStatement l)"
  by (simp_all add: wfl_def new_MustacheStatement_def new_CharBucket_def bucketR_def content_def
      bucketL_def)

lemma emit_mustache_flat:
  assumes "blockStatement st = None" and "openedTags st = []"
  shows "idle (emit_mustache st ms1)" "openedTags (emit_mustache st ms1) = []"
    "reconstruct_list (tokens (emit_mustache st ms1))
       = reconstruct_list (tokens st) @ textLeft (mprops ms1) @ raw (mprops ms1)"
  using assms
  by (simp_all add: emit_mustache_def consumeNode_def idle_def getMustacheNode_def)

text \<open>What classifying a piece of text without tags does to the reconstruction.\<close>

definition text_spec :: "TagsDef \<Rightarrow> Tokenizer \<Rightarrow> string \<Rightarrow> bool" where
  "text_spec td st tx =
     (flat st \<and> no_tag_within td tx \<longrightarrow>
      (\<exists>st'. processText td st tx = Inr st' \<and> flat st' \<and> line st' = line st
         \<and> reconstruct_list (tokens st') @ held st'
              = reconstruct_list (tokens st) @ held st @ tx @ [EOL]))"

definition feed_spec :: "TagsDef \<Rightarrow> Tokenizer \<Rightarrow> string \<Rightarrow> bool" where
  "feed_spec td st tx =
     (blockStatement st = None \<and> openedTags st = [] \<and> no_tag_within td tx \<longrightarrow>
      (\<forall>ms. mustacheStatement st = Some ms \<and> wfl ms \<and> \<not> mended ms
             \<and> (mstarted ms \<or> (MUSTACHE_REGEX_test tx \<and> content ms = [])) \<longrightarrow>
        (\<exists>st'. feedTextToMustacheStatement td st tx = Inr st' \<and> flat st' \<and> line st' = line st
           \<and> reconstruct_list (tokens st') @ held st'
                = reconstruct_list (tokens st)
                  @ (if mstarted ms then content ms @ [EOL] else []) @ tx @ [EOL])))"

lemma processText_flat_aux:
  "text_spec td st tx" "feed_spec td st tx"
proof (induction td st tx rule: processText_feedTextToMustacheStatement.induct)
  case (1 td st tx)
  show ?case
    unfolding text_spec_def
  proof (intro impI, elim conjE)
    assume f: "flat st" and nt: "no_tag_within td tx"
    from f have b: "blockStatement st = None" and o: "openedTags st = []" by (simp_all add: flat_def)
    then have nb: "\<not> isSeeking_block (blockStatement st)" by (simp add: isSeeking_block_def)
    show "\<exists>st'. processText td st tx = Inr st' \<and> flat st' \<and> line st' = line st
         \<and> reconstruct_list (tokens st') @ held st'
              = reconstruct_list (tokens st) @ held st @ tx @ [EOL]"
    proof (cases "mustacheStatement st")
      case (Some ms)
      with f have m: "wfl ms" "mstarted ms" "\<not> mended ms" by (simp_all add: flat_def)
      then have sk: "isSeeking_mustache (mustacheStatement st)"
        using Some by (simp add: isSeeking_mustache_def mseeking_def)
      have p: "processText td st tx = feedTextToMustacheStatement td st tx"
        using nb sk by (simp add: processText.simps)
      have pr1: "blockStatement st = None \<and> openedTags st = [] \<and> no_tag_within td tx"
        using b o nt by simp
      have pr2: "mustacheStatement st = Some ms \<and> wfl ms \<and> \<not> mended ms
             \<and> (mstarted ms \<or> (MUSTACHE_REGEX_test tx \<and> content ms = []))"
        using Some m by simp
      from "1.IH"(1) [OF nb sk, unfolded feed_spec_def, rule_format, OF pr1 pr2] m(2)
      obtain st' where "feedTextToMustacheStatement td st tx = Inr st'" "flat st'" "line st' = line st"
        "reconstruct_list (tokens st') @ held st'
                = reconstruct_list (tokens st) @ (content ms @ [EOL]) @ tx @ [EOL]"
        by auto
      with p Some show ?thesis by (simp add: held_def)
    next
      case None
      then have nm: "\<not> isSeeking_mustache (mustacheStatement st)" by (simp add: isSeeking_mustache_def)
      from no_tag_within_getTag [OF nt] have g: "getTag td tx = None" .
      from o have nc: "\<not> isClosingTag st tx" by (simp add: isClosingTag_def)
      have h: "held st = []" using None by (simp add: held_def)
      show ?thesis
      proof (cases "MUSTACHE_REGEX_test tx")
        case True
        let ?st = "st\<lparr>mustacheStatement := Some (new_MustacheStatement (line st))\<rparr>"
        have p: "processText td st tx = feedTextToMustacheStatement td ?st tx"
          using nb nm g nc True by (simp add: processText.simps)
        have pr1: "blockStatement ?st = None \<and> openedTags ?st = [] \<and> no_tag_within td tx"
          using b o nt by simp
        let ?ms = "new_MustacheStatement (line st)"
        have pr2: "mustacheStatement ?st = Some ?ms \<and> wfl ?ms \<and> \<not> mended ?ms
             \<and> (mstarted ?ms \<or> (MUSTACHE_REGEX_test tx \<and> content ?ms = []))"
          using True wfl_new [of "line st"] by simp
        from "1.IH"(2) [OF nb nm g nc True, unfolded feed_spec_def, rule_format, OF pr1 pr2] wfl_new(3) [of "line st"]
        obtain st' where "feedTextToMustacheStatement td ?st tx = Inr st'" "flat st'" "line st' = line ?st"
          "reconstruct_list (tokens st') @ held st' = reconstruct_list (tokens ?st) @ tx @ [EOL]"
          by auto
        with p h show ?thesis by simp
      next
        case False
        have p: "processText td st tx
                   = Inr (consumeNode (consumeNode st (getRawNode st tx)) (Newline (line st)))"
          using nb nm g nc False by (simp add: processText.simps Let_def getBlankLineNode_def)
        show ?thesis
          unfolding p using f None h
          by (simp add: flat_def consumeNode_def getRawNode_def held_def)
      qed
    qed
  qed
next
  case (2 td st tx)
  show ?case
    unfolding feed_spec_def
  proof (intro impI allI, elim conjE)
    fix ms
    assume b: "blockStatement st = None" and o: "openedTags st = []" and nt: "no_tag_within td tx"
      and m: "mustacheStatement st = Some ms" "wfl ms" "\<not> mended ms"
      and sr: "mstarted ms \<or> (MUSTACHE_REGEX_test tx \<and> content ms = [])"
    let ?pre = "if mstarted ms then content ms @ [EOL] else []"
    from sr have sr': "mstarted ms \<or> MUSTACHE_REGEX_test tx" by auto
    from sr have pre: "(if mstarted ms then content ms @ [EOL] else content ms) = ?pre" by auto
    from mfeed_wfl [OF m(2,3) sr', of ] obtain ms1 where
      f: "mfeed ms tx = Inr ms1" and s1: "mstarted ms1"
      and e: "mended ms1 \<Longrightarrow> textLeft (mprops ms1) @ raw (mprops ms1) @ textRight (mprops ms1) = ?pre @ tx"
      and su: "mended ms1 \<Longrightarrow> \<exists>p. tx = p @ textRight (mprops ms1)"
      and ne: "\<not> mended ms1 \<Longrightarrow> wfl ms1 \<and> content ms1 = ?pre @ tx"
      unfolding pre by (auto split: if_splits)
    note eq = feedTextToMustacheStatement_eq [OF m(1) f, of td]
    show "\<exists>st'. feedTextToMustacheStatement td st tx = Inr st' \<and> flat st' \<and> line st' = line st
           \<and> reconstruct_list (tokens st') @ held st'
                = reconstruct_list (tokens st) @ ?pre @ tx @ [EOL]"
    proof (cases "mended ms1")
      case False
      with s1 have sk: "mseeking ms1" by (simp add: mseeking_def)
      from ne [OF False] s1 False b o show ?thesis
        unfolding eq using sk by (simp add: flat_def held_def)
    next
      case True
      then have nsk: "\<not> mseeking ms1" by (simp add: mseeking_def)
      note em = emit_mustache_flat [OF b o, of ms1]
      show ?thesis
      proof (cases "textRight (mprops ms1) = []")
        case True
        from e [OF \<open>mended ms1\<close>] True
        have t: "textLeft (mprops ms1) @ raw (mprops ms1) = ?pre @ tx" by simp
        have r: "reconstruct_list (tokens (emit_mustache st ms1))
                   = reconstruct_list (tokens st) @ ?pre @ tx"
          unfolding em(3) using t by simp
        show ?thesis
          unfolding eq using nsk True em(1,2) r
          by (simp add: flat_def idle_def consumeNode_def getBlankLineNode_def held_def)
      next
        case False
        from su [OF \<open>mended ms1\<close>] nt have nt': "no_tag_within td (textRight (mprops ms1))"
          using no_tag_within_suffix by blast
        have fl: "flat (emit_mustache st ms1)" using em(1,2) by (simp add: flat_def idle_def)
        have hd: "held (emit_mustache st ms1) = []" using em(1) by (simp add: held_def idle_def)
        have eqn: "emit_mustache st ms1 = consumeNode
                  (if textLeft (mprops ms1) \<noteq> []
                   then consumeNode (st\<lparr>mustacheStatement := Some ms1\<rparr>)
                      (Raw (textLeft (mprops ms1)) (mstartPosition ms1))
                   else st\<lparr>mustacheStatement := Some ms1\<rparr>)
                  (getMustacheNode (mprops ms1) (mstartPosition ms1))\<lparr>mustacheStatement := None\<rparr>"
          by (simp add: emit_mustache_def)
        have sd: "\<not> \<not> isSeeked_mustache (Some ms1)" using nsk by (simp add: isSeeked_mustache_def)
        from "2.IH" [OF m(1) f sd refl refl eqn False, unfolded text_spec_def, rule_format, OF conjI [OF fl nt']]
        obtain st' where p: "processText td (emit_mustache st ms1) (textRight (mprops ms1)) = Inr st'"
          and fl': "flat st'" and ln: "line st' = line (emit_mustache st ms1)"
          and rc: "reconstruct_list (tokens st') @ held st'
              = reconstruct_list (tokens (emit_mustache st ms1)) @ held (emit_mustache st ms1)
                  @ textRight (mprops ms1) @ [EOL]"
          by blast
        from e [OF \<open>mended ms1\<close>] have t: "textLeft (mprops ms1) @ raw (mprops ms1) @ textRight (mprops ms1) = ?pre @ tx" .
        have "reconstruct_list (tokens st') @ held st'
                = reconstruct_list (tokens st) @ (textLeft (mprops ms1) @ raw (mprops ms1) @ textRight (mprops ms1)) @ [EOL]"
          unfolding rc em(3) hd by simp
        also have "\<dots> = reconstruct_list (tokens st) @ ?pre @ tx @ [EOL]"
          unfolding t by simp
        finally have rc': "reconstruct_list (tokens st') @ held st'
                = reconstruct_list (tokens st) @ ?pre @ tx @ [EOL]" .
        show ?thesis
          unfolding eq using nsk False p fl' ln rc' by simp
      qed
    qed
  qed
qed

subsection \<open>The round trip\<close>

lemma processText_flat:
  assumes "flat st" and "no_tag_within td tx"
  shows "\<exists>st'. processText td st tx = Inr st' \<and> flat st' \<and> line st' = line st
         \<and> reconstruct_list (tokens st') @ held st'
              = reconstruct_list (tokens st) @ held st @ tx @ [EOL]"
  using processText_flat_aux(1) [of td st tx] assms unfolding text_spec_def by blast

text \<open>The lines of a text, each followed by a line break.\<close>

definition with_breaks :: "string list \<Rightarrow> string" where
  "with_breaks ls = concat (map (\<lambda>l. l @ [EOL]) ls)"

lemma with_breaks_split_EOL: "with_breaks (split_EOL t) = t @ [EOL]"
  by (induction t) (auto simp: with_breaks_def split: list.splits)

lemma flat_line [simp]: "flat (st\<lparr>line := n\<rparr>) = flat st"
  by (simp add: flat_def)

lemma held_line [simp]: "held (st\<lparr>line := n\<rparr>) = held st"
  by (simp add: held_def)

lemma parse_lines_flat:
  assumes "flat st" and "\<forall>l \<in> set ls. no_tag_within td l"
  shows "\<exists>st'. parse_lines td st ls = Inr st' \<and> flat st'
           \<and> reconstruct_list (tokens st') @ held st'
                = reconstruct_list (tokens st) @ held st @ with_breaks ls"
  using assms
proof (induction ls arbitrary: st)
  case Nil
  then show ?case by (simp add: with_breaks_def)
next
  case (Cons l ls)
  let ?st0 = "st\<lparr>line := line st + 1\<rparr>"
  from Cons.prems have f0: "flat ?st0" and nt: "no_tag_within td l"
    and r: "\<forall>l \<in> set ls. no_tag_within td l" by simp_all
  from processText_flat [OF f0 nt] obtain st1 where
    p: "processText td ?st0 l = Inr st1" and f1: "flat st1"
    and r1: "reconstruct_list (tokens st1) @ held st1
              = reconstruct_list (tokens ?st0) @ held ?st0 @ l @ [EOL]"
    by blast
  from Cons.IH [OF f1 r] obtain st' where
    l': "parse_lines td st1 ls = Inr st'" and f': "flat st'"
    and r': "reconstruct_list (tokens st') @ held st'
                = reconstruct_list (tokens st1) @ held st1 @ with_breaks ls"
    by blast
  have "parse_lines td st (l # ls) = Inr st'" using p l' by simp
  moreover have "reconstruct_list (tokens st') @ held st'
                = reconstruct_list (tokens st) @ held st @ with_breaks (l # ls)"
    using r' r1 by (simp add: with_breaks_def)
  ultimately show ?case using f' by blast
qed

lemma parse_eof_flat:
  assumes "flat st"
  shows "reconstruct_list (tokens (parse_eof st)) = reconstruct_list (tokens st) @ held st"
    and "blockStatement (parse_eof st) = None" and "mustacheStatement (parse_eof st) = None"
    and "openedTags (parse_eof st) = []"
proof -
  from assms have b: "blockStatement st = None" and o: "openedTags st = []" by (simp_all add: flat_def)
  have "reconstruct_list (tokens (parse_eof st)) = reconstruct_list (tokens st) @ held st
        \<and> blockStatement (parse_eof st) = None \<and> mustacheStatement (parse_eof st) = None
        \<and> openedTags (parse_eof st) = []"
  proof (cases "mustacheStatement st")
    case None
    with b o show ?thesis by (simp add: parse_eof_def held_def)
  next
    case (Some ms)
    with assms have w: "wfl ms" "mstarted ms" "\<not> mended ms" by (simp_all add: flat_def)
    then have c: "content ms = textLeft (mprops ms) @ raw (mprops ms)" "textRight (mprops ms) = []"
      by (simp_all add: content_def wfl_def)
    from b o Some c show ?thesis
      by (simp add: parse_eof_def held_def Let_def consumeNode_def getRawNode_def getBlankLineNode_def)
  qed
  then show "reconstruct_list (tokens (parse_eof st)) = reconstruct_list (tokens st) @ held st"
    and "blockStatement (parse_eof st) = None" and "mustacheStatement (parse_eof st) = None"
    and "openedTags (parse_eof st) = []" by simp_all
qed

text \<open>
  Claim C2, amended. For every template in which no line, and no remainder of a line,
  matches the tag pattern with a known identifier, \<open>parse\<close> runs to completion with no
  statement and no block left open, and concatenating the values of the Raw nodes and the
  raw fields of the Mustache nodes of the tokens, in order, with one line break for each
  Newline node, gives the template text followed by one line break.
\<close>

theorem C2_round_trip:
  assumes "\<forall>l \<in> set (split_EOL template). no_tag_within td l"
  shows "\<exists>st. parse td template = Inr st
           \<and> blockStatement st = None \<and> mustacheStatement st = None \<and> openedTags st = []
           \<and> reconstruct_list (tokens st) = template @ [EOL]"
proof -
  have f: "flat new_Tokenizer" by (simp add: flat_def new_Tokenizer_def)
  from parse_lines_flat [OF f assms] obtain st' where
    l: "parse_lines td new_Tokenizer (split_EOL template) = Inr st'" and f': "flat st'"
    and r: "reconstruct_list (tokens st') @ held st'
                = reconstruct_list (tokens new_Tokenizer) @ held new_Tokenizer
                    @ with_breaks (split_EOL template)"
    by blast
  have "parse td template = Inr (parse_eof st')" using l by (simp add: parse_def)
  moreover have "reconstruct_list (tokens (parse_eof st')) = template @ [EOL]"
    unfolding parse_eof_flat(1) [OF f'] r
    by (simp add: new_Tokenizer_def held_def with_breaks_split_EOL)
  ultimately show ?thesis using parse_eof_flat(2,3,4) [OF f'] by blast
qed

text \<open>
  Claim C2 as stated fails, in three ways: every line, the last one too, ends with a
  Newline node, so the reconstruction of \<open>ab\<close> has a line break that the template has
  not; the backslash of an escaped tag is dropped; and the header and the closing line of
  a block are in no Raw or Mustache node.
\<close>

theorem C2_round_trip_counterexample:
  "(case parse td_if ''ab'' of
      Inl e \<Rightarrow> False
    | Inr st \<Rightarrow> blockStatement st = None \<and> mustacheStatement st = None \<and> openedTags st = []
               \<and> reconstruct_list (tokens st) \<noteq> ''ab'')
   \<and> (case parse td_if (BACKSLASH # ''@if(x)'') of
        Inl e \<Rightarrow> False
      | Inr st \<Rightarrow> blockStatement st = None \<and> mustacheStatement st = None \<and> openedTags st = []
                 \<and> reconstruct_list (tokens st) = ''@if(x)'' @ [EOL])
   \<and> (case parse td_if (''@if(x)'' @ [EOL] @ ''a'' @ [EOL] @ ''@endif'') of
        Inl e \<Rightarrow> False
      | Inr st \<Rightarrow> blockStatement st = None \<and> mustacheStatement st = None \<and> openedTags st = []
                 \<and> reconstruct_list (tokens st) = [EOL] @ ''a'' @ [EOL, EOL])"
  by code_simp

theorem C2_round_trip_witness:
  "split_EOL (''Hi {{ a }} and {{{ b'' @ [EOL] @ ''}}}!'') = [''Hi {{ a }} and {{{ b'', ''}}}!'']
   \<and> no_tag_within td_if ''Hi {{ a }} and {{{ b'' \<and> no_tag_within td_if ''}}}!''
   \<and> (\<exists>st. parse td_if (''Hi {{ a }} and {{{ b'' @ [EOL] @ ''}}}!'') = Inr st
         \<and> reconstruct_list (tokens st) = (''Hi {{ a }} and {{{ b'' @ [EOL] @ ''}}}!'') @ [EOL])"
proof -
  let ?t = "''Hi {{ a }} and {{{ b'' @ [EOL] @ ''}}}!''"
  have s: "split_EOL ?t = [''Hi {{ a }} and {{{ b'', ''}}}!'']" by code_simp
  have n: "no_tag_within td_if ''Hi {{ a }} and {{{ b''" "no_tag_within td_if ''}}}!''"
    by code_simp+
  then have h: "\<forall>l \<in> set (split_EOL ?t). no_tag_within td_if l" unfolding s by simp
  from C2_round_trip [OF h] have "\<exists>st. parse td_if ?t = Inr st
         \<and> reconstruct_list (tokens st) = ?t @ [EOL]" by blast
  with s n show ?thesis by blast
qed

section \<open>End of input with an open statement\<close>

subsection \<open>The raw text of a tag statement\<close>

lemma tsetProp_raw: "tsetProp s = Inr s1 \<Longrightarrow> raw (tprops s1) = raw (tprops s)"
  by (auto simp: tsetProp_def split: option.splits TagField.splits)

lemma startStatement_raw: "startStatement s = Inr s1 \<Longrightarrow> raw (tprops s1) = raw (tprops s)"
  by (auto simp: startStatement_def dest: tsetProp_raw split: sum.splits)

lemma endStatement_raw: "endStatement s c = Inr s1 \<Longrightarrow> raw (tprops s1) = raw (tprops s)"
  by (auto simp: endStatement_def dest: tsetProp_raw split: sum.splits if_splits)

lemma feedChar_raw: "feedChar s c = Inr s1 \<Longrightarrow> raw (tprops s1) = raw (tprops s)"
  by (auto simp: feedChar_def Let_def split: option.splits TagField.splits if_splits)

lemma feedSeekable_loop_raw:
  "feedSeekable_loop s cs = Inr s' \<Longrightarrow> raw (tprops s') = raw (tprops s)"
proof (induction s cs rule: feedSeekable_loop.induct)
  case (1 s)
  then show ?case by simp
next
  case (2 s c cs)
  show ?case
  proof (cases "isStartOfStatement s c")
    case True
    then obtain s1 where s1: "startStatement s = Inr s1" and l: "feedSeekable_loop s1 cs = Inr s'"
      using "2.prems" by (auto split: sum.splits)
    from "2.IH"(1) [OF True s1 l] startStatement_raw [OF s1] show ?thesis by simp
  next
    case False
    note ns = this
    show ?thesis
    proof (cases "isEndOfStatement s c")
      case True
      with ns "2.prems" have "endStatement s c = Inr s'"
        by (auto simp: ensureNoMoreCharsToFeed_def split: sum.splits if_splits)
      from endStatement_raw [OF this] show ?thesis .
    next
      case False
      then obtain s1 where s1: "feedChar s c = Inr s1" and l: "feedSeekable_loop s1 cs = Inr s'"
        using ns "2.prems" by (auto split: sum.splits)
      from "2.IH"(2) [OF ns False s1 l] feedChar_raw [OF s1] show ?thesis by simp
    qed
  qed
qed

text \<open>A successful \<open>feed\<close> appends the line to the raw text, after a line break unless the
  raw text was empty.\<close>

lemma tfeed_raw:
  assumes "tfeed s ln = Inr s'"
  shows "raw (tprops s') = (if raw (tprops s) = [] then ln else raw (tprops s) @ EOL # ln)"
proof -
  have r: "raw (tprops (recordRaw s ln))
             = (if raw (tprops s) = [] then ln else raw (tprops s) @ EOL # ln)"
    by (simp add: recordRaw_def)
  show ?thesis
  proof (cases "seekable s")
    case True
    from tfeed_Inr(2) [OF assms True] obtain s1 where
      l: "feedSeekable_loop (recordRaw s ln) ln = Inr s1"
      and s': "s' = (if \<not> tseeking s1 then s1\<lparr>tinternalProps := None\<rparr> else s1)"
      by blast
    from feedSeekable_loop_raw [OF l] r show ?thesis unfolding s' by simp
  next
    case False
    from tfeed_Inr(3) [OF assms False] r show ?thesis by (simp add: feedNonSeekable_def)
  qed
qed

text \<open>A line that opens a tag statement: \<open>getTag\<close> gives a tag that is not escaped.\<close>

definition opens_tag :: "TagsDef \<Rightarrow> string \<Rightarrow> bool" where
  "opens_tag td l = (case getTag td l of None \<Rightarrow> False | Some tag \<Rightarrow> escaped tag \<noteq> Some True)"

text \<open>Such a line, trimmed, starts with the sigil, and what the statement is fed is the
  rest.\<close>

lemma opens_tag_sigil:
  assumes "opens_tag td l"
  shows "\<exists>r. trim l = CHR ''@'' # r \<and> r \<noteq> [] \<and> TRIM_TAG_REGEX_replace (trim l) = r"
proof -
  from assms obtain tag where g: "getTag td l = Some tag" and e: "escaped tag \<noteq> Some True"
    by (auto simp: opens_tag_def split: option.splits)
  from g obtain esc w where x: "TAG_REGEX_exec (trim l) = Some (esc, w)"
    by (auto simp: getTag_def split: option.splits)
  with g e have ne: "\<not> esc"
    by (auto simp: getTag_def split: option.splits if_splits)
  show ?thesis
  proof (cases "trim l")
    case Nil
    with x show ?thesis by (simp add: TAG_REGEX_exec_def)
  next
    case (Cons c r)
    show ?thesis
    proof (cases "c = BACKSLASH")
      case True
      with x Cons ne show ?thesis
        by (auto simp: TAG_REGEX_exec_def Let_def split: list.splits if_splits)
    next
      case False
      with x Cons have c: "c = CHR ''@''" and "r \<noteq> []"
        by (auto simp: TAG_REGEX_exec_def Let_def split: list.splits if_splits)
      then show ?thesis using Cons by (simp add: TRIM_TAG_REGEX_replace_def)
    qed
  qed
qed

subsection \<open>The text an open statement holds\<close>

text \<open>The value of the raw node that \<open>parse\<close> makes of an open statement at the end of
  the input.\<close>

definition open_text :: "Tokenizer \<Rightarrow> string" where
  "open_text st =
     (case blockStatement st of
        Some bs \<Rightarrow> CHR ''@'' # raw (tprops bs)
      | None \<Rightarrow>
          (case mustacheStatement st of
             Some ms \<Rightarrow> textLeft (mprops ms) @ raw (mprops ms) @ textRight (mprops ms)
           | None \<Rightarrow> []))"

text \<open>
  The open statement of \<open>st\<close> was opened by the text \<open>l\<close> and has been fed the lines \<open>ls\<close>
  since: a tag statement holds the trimmed text \<open>l\<close>, a mustache statement the text \<open>l\<close>
  as it is, and both the later lines after it, each after a line break.
\<close>

definition opened_at :: "TagsDef \<Rightarrow> Tokenizer \<Rightarrow> string \<Rightarrow> string list \<Rightarrow> bool" where
  "opened_at td st l ls =
     (if blockStatement st \<noteq> None
      then opens_tag td l \<and> open_text st = join_EOL (trim l # ls)
      else mustacheStatement st \<noteq> None \<and> MUSTACHE_REGEX_test l
           \<and> open_text st = join_EOL (l # ls))"

text \<open>At most one statement is open; an open tag statement has recorded some raw text, and
  an open mustache statement is inside its expression.\<close>

definition well_open :: "Tokenizer \<Rightarrow> bool" where
  "well_open st =
     (one_open st
      \<and> (\<forall>bs. blockStatement st = Some bs \<longrightarrow> raw (tprops bs) \<noteq> [])
      \<and> (\<forall>ms. mustacheStatement st = Some ms \<longrightarrow> wfl ms \<and> mstarted ms))"

text \<open>What classifying the text \<open>tx\<close> does to the open statement: none is open afterwards,
  or the statement that was open has taken the text as one more line, or a statement was
  opened by the text or by what is left of it to the right of a mustache.\<close>

definition step :: "TagsDef \<Rightarrow> Tokenizer \<Rightarrow> string \<Rightarrow> Tokenizer \<Rightarrow> bool" where
  "step td st tx st' =
     (idle st'
      \<or> (\<not> idle st \<and> \<not> idle st' \<and> (blockStatement st' = None \<longleftrightarrow> blockStatement st = None)
          \<and> open_text st' = open_text st @ EOL # tx)
      \<or> (\<exists>p l. tx = p @ l \<and> opened_at td st' l []))"

lemma well_open_idle: "idle st \<Longrightarrow> well_open st"
  by (simp add: well_open_def idle_def one_open_def)

lemma well_open_consumeNode [simp]: "well_open (consumeNode st n) = well_open st"
  by (simp add: well_open_def)

lemma idle_consumeNode [simp]: "idle (consumeNode st n) = idle st"
  by (simp add: idle_def)

lemma open_text_mustache:
  assumes "blockStatement st = None" and "mustacheStatement st = Some ms"
    and "wfl ms" and "mstarted ms" and "\<not> mended ms"
  shows "open_text st = content ms"
  using assms by (simp add: open_text_def content_def wfl_def)

text \<open>Feeding a line to the open tag statement.\<close>

lemma feedTextToBlockStatement_step:
  assumes "feedTextToBlockStatement td st tx = Inr st'" and "blockStatement st = Some bs"
    and "mustacheStatement st = None"
  shows "one_open st'"
    and "idle st' \<or> (\<exists>bs1. blockStatement st' = Some bs1
            \<and> raw (tprops bs1) = (if raw (tprops bs) = [] then tx else raw (tprops bs) @ EOL # tx))"
proof -
  from feedTextToBlockStatement_one_open [OF assms(1,3)] show "one_open st'" .
  from assms(1) show "idle st' \<or> (\<exists>bs1. blockStatement st' = Some bs1
            \<and> raw (tprops bs1) = (if raw (tprops bs) = [] then tx else raw (tprops bs) @ EOL # tx))"
  proof (cases rule: feedTextToBlockStatement_Inr)
    case (1 bs' bs1)
    with assms(2) have f: "tfeed bs tx = Inr bs1" by simp
    show ?thesis
    proof (cases "tseeking bs1")
      case True
      with 1(3) tfeed_raw [OF f] show ?thesis by simp
    next
      case False
      with 1(4) assms(3) show ?thesis by (auto simp: idle_def)
    qed
  qed
qed

text \<open>The two statements of the mutual induction.\<close>

definition text_step :: "TagsDef \<Rightarrow> Tokenizer \<Rightarrow> string \<Rightarrow> bool" where
  "text_step td st tx =
     (well_open st \<longrightarrow>
      (\<forall>st'. processText td st tx = Inr st' \<longrightarrow> well_open st' \<and> step td st tx st'))"

definition feed_step :: "TagsDef \<Rightarrow> Tokenizer \<Rightarrow> string \<Rightarrow> bool" where
  "feed_step td st tx =
     (blockStatement st = None \<longrightarrow>
      (\<forall>ms. mustacheStatement st = Some ms \<and> wfl ms \<and> \<not> mended ms
             \<and> (mstarted ms \<or> (MUSTACHE_REGEX_test tx \<and> content ms = [])) \<longrightarrow>
        (\<forall>st'. feedTextToMustacheStatement td st tx = Inr st' \<longrightarrow>
           well_open st'
           \<and> (idle st'
              \<or> (mstarted ms \<and> blockStatement st' = None \<and> mustacheStatement st' \<noteq> None
                  \<and> open_text st' = content ms @ EOL # tx)
              \<or> (\<exists>p l. tx = p @ l \<and> opened_at td st' l [])))))"

lemma processText_step_aux:
  "text_step td st tx" "feed_step td st tx"
proof (induction td st tx rule: processText_feedTextToMustacheStatement.induct)
  case (1 td st tx)
  show ?case
    unfolding text_step_def
  proof (intro impI allI)
    fix st'
    assume g: "well_open st" and p: "processText td st tx = Inr st'"
    from g have o: "one_open st" by (simp add: well_open_def)
    show "well_open st' \<and> step td st tx st'"
    proof (cases "blockStatement st")
      case (Some bs)
      with o have sk: "isSeeking_block (blockStatement st)" and m: "mustacheStatement st = None"
        by (simp_all add: one_open_def isSeeking_block_def)
      from g Some have r: "raw (tprops bs) \<noteq> []" by (simp add: well_open_def)
      from sk p have f: "feedTextToBlockStatement td st tx = Inr st'"
        by (simp add: processText.simps)
      note s = feedTextToBlockStatement_step [OF f Some m]
      from s(2) show ?thesis
      proof
        assume "idle st'"
        then show ?thesis by (simp add: well_open_idle step_def)
      next
        assume "\<exists>bs1. blockStatement st' = Some bs1
            \<and> raw (tprops bs1) = (if raw (tprops bs) = [] then tx else raw (tprops bs) @ EOL # tx)"
        then obtain bs1 where b1: "blockStatement st' = Some bs1"
          and r1: "raw (tprops bs1) = raw (tprops bs) @ EOL # tx" using r by auto
        from s(1) b1 have m1: "mustacheStatement st' = None" by (simp add: one_open_def)
        have "well_open st'" using s(1) b1 r1 m1 by (simp add: well_open_def)
        moreover have "step td st tx st'"
          using Some b1 r1 by (simp add: step_def idle_def open_text_def)
        ultimately show ?thesis by simp
      qed
    next
      case None
      then have nb: "\<not> isSeeking_block (blockStatement st)" by (simp add: isSeeking_block_def)
      show ?thesis
      proof (cases "mustacheStatement st")
        case (Some ms)
        with g o have m: "wfl ms" "mstarted ms" "\<not> mended ms"
          by (simp_all add: well_open_def one_open_def mseeking_def)
        then have sk: "isSeeking_mustache (mustacheStatement st)"
          using Some by (simp add: isSeeking_mustache_def mseeking_def)
        have f: "feedTextToMustacheStatement td st tx = Inr st'"
          using nb sk p by (simp add: processText.simps)
        have pr2: "mustacheStatement st = Some ms \<and> wfl ms \<and> \<not> mended ms
             \<and> (mstarted ms \<or> (MUSTACHE_REGEX_test tx \<and> content ms = []))"
          using Some m by simp
        from "1.IH"(1) [OF nb sk, unfolded feed_step_def, rule_format, OF None pr2 f]
        have w: "well_open st'" and d: "idle st'
              \<or> (mstarted ms \<and> blockStatement st' = None \<and> mustacheStatement st' \<noteq> None
                  \<and> open_text st' = content ms @ EOL # tx)
              \<or> (\<exists>p l. tx = p @ l \<and> opened_at td st' l [])"
          by simp_all
        have ot: "open_text st = content ms" using open_text_mustache [OF None Some m] .
        from d have "step td st tx st'"
          unfolding step_def using None Some ot by (auto simp: idle_def)
        with w show ?thesis by simp
      next
        case m: None
        then have nm: "\<not> isSeeking_mustache (mustacheStatement st)"
          by (simp add: isSeeking_mustache_def)
        show ?thesis
        proof (cases "getTag td tx")
          case (Some tag)
          show ?thesis
          proof (cases "escaped tag = Some True")
            case True
            with nb nm Some p have "st' = consumeNode (consumeNode st (getRawNode st (ESCAPE_REGEX_replace tx)))
                      (getBlankLineNode (consumeNode st (getRawNode st (ESCAPE_REGEX_replace tx))))"
              by (simp add: processText.simps Let_def)
            then have "idle st'" using None m by (simp add: idle_def)
            then show ?thesis by (simp add: well_open_idle step_def)
          next
            case False
            let ?st = "st\<lparr>blockStatement := Some (new_TagStatement (line st)
                          (case tag_seekable tag of None \<Rightarrow> True | Some b \<Rightarrow> b))\<rparr>"
            from False nb nm Some p have f: "feedTextToBlockStatement td ?st
                    (TRIM_TAG_REGEX_replace (trim tx)) = Inr st'"
              by (simp add: processText.simps)
            have ot: "opens_tag td tx" using Some False by (simp add: opens_tag_def)
            from opens_tag_sigil [OF ot] obtain r where
              t: "trim tx = CHR ''@'' # r" and rn: "r \<noteq> []"
              and tr: "TRIM_TAG_REGEX_replace (trim tx) = r" by blast
            have b: "blockStatement ?st = Some (new_TagStatement (line st)
                          (case tag_seekable tag of None \<Rightarrow> True | Some b \<Rightarrow> b))" by simp
            have m': "mustacheStatement ?st = None" using m by simp
            note s = feedTextToBlockStatement_step [OF f b m']
            from s(2) show ?thesis
            proof
              assume "idle st'"
              then show ?thesis by (simp add: well_open_idle step_def)
            next
              assume "\<exists>bs1. blockStatement st' = Some bs1 \<and>
                 raw (tprops bs1) = (if raw (tprops (new_TagStatement (line st)
                          (case tag_seekable tag of None \<Rightarrow> True | Some b \<Rightarrow> b))) = []
                    then TRIM_TAG_REGEX_replace (trim tx)
                    else raw (tprops (new_TagStatement (line st)
                          (case tag_seekable tag of None \<Rightarrow> True | Some b \<Rightarrow> b)))
                         @ EOL # TRIM_TAG_REGEX_replace (trim tx))"
              then obtain bs1 where b1: "blockStatement st' = Some bs1"
                and r1: "raw (tprops bs1) = r"
                unfolding tr by (auto simp: new_TagStatement_def)
              from s(1) b1 have m1: "mustacheStatement st' = None" by (simp add: one_open_def)
              have "well_open st'" using s(1) b1 r1 rn m1 by (simp add: well_open_def)
              moreover have "opened_at td st' tx []"
                using b1 r1 ot t by (simp add: opened_at_def open_text_def)
              then have "\<exists>p l. tx = p @ l \<and> opened_at td st' l []"
                by (intro exI [of _ "[]"] exI [of _ tx]) simp
              then have "step td st tx st'" unfolding step_def by blast
              ultimately show ?thesis by simp
            qed
          qed
        next
          case gn: None
          show ?thesis
          proof (cases "isClosingTag st tx")
            case True
            with nb nm gn p None m have "idle st'"
              by (auto simp: processText.simps Let_def idle_def)
            then show ?thesis by (simp add: well_open_idle step_def)
          next
            case False
            note nc = this
            show ?thesis
            proof (cases "MUSTACHE_REGEX_test tx")
              case True
              let ?st = "st\<lparr>mustacheStatement := Some (new_MustacheStatement (line st))\<rparr>"
              let ?ms = "new_MustacheStatement (line st)"
              from nb nm gn nc True p have f: "feedTextToMustacheStatement td ?st tx = Inr st'"
                by (simp add: processText.simps)
              have pr1: "blockStatement ?st = None" using None by simp
              have pr2: "mustacheStatement ?st = Some ?ms \<and> wfl ?ms \<and> \<not> mended ?ms
                   \<and> (mstarted ?ms \<or> (MUSTACHE_REGEX_test tx \<and> content ?ms = []))"
                using True wfl_new [of "line st"] by simp
              from "1.IH"(2) [OF nb nm gn nc True, unfolded feed_step_def, rule_format, OF pr1 pr2 f]
                wfl_new(3) [of "line st"]
              have w: "well_open st'" and d: "idle st' \<or> (\<exists>p l. tx = p @ l \<and> opened_at td st' l [])"
                by auto
              from d have "step td st tx st'" unfolding step_def by blast
              with w show ?thesis by simp
            next
              case False
              with nb nm gn nc p None m have "idle st'"
                by (auto simp: processText.simps Let_def idle_def)
              then show ?thesis by (simp add: well_open_idle step_def)
            qed
          qed
        qed
      qed
    qed
  qed
next
  case (2 td st tx)
  show ?case
    unfolding feed_step_def
  proof (intro impI allI, elim conjE)
    fix ms st'
    assume b: "blockStatement st = None"
      and m: "mustacheStatement st = Some ms" "wfl ms" "\<not> mended ms"
      and sr: "mstarted ms \<or> (MUSTACHE_REGEX_test tx \<and> content ms = [])"
      and fd: "feedTextToMustacheStatement td st tx = Inr st'"
    from sr have sr': "mstarted ms \<or> MUSTACHE_REGEX_test tx" by auto
    from mfeed_wfl [OF m(2,3) sr'] obtain ms1 where
      f: "mfeed ms tx = Inr ms1" and s1: "mstarted ms1"
      and su: "mended ms1 \<Longrightarrow> \<exists>p. tx = p @ textRight (mprops ms1)"
      and ne: "\<not> mended ms1 \<Longrightarrow> wfl ms1
                 \<and> content ms1 = (if mstarted ms then content ms @ [EOL] else content ms) @ tx"
      by (auto split: if_splits)
    note eq = feedTextToMustacheStatement_eq [OF m(1) f, of td]
    from processText_one_open_aux(2) [of st td tx] b fd have o': "one_open st'" by blast
    show "well_open st'
           \<and> (idle st'
              \<or> (mstarted ms \<and> blockStatement st' = None \<and> mustacheStatement st' \<noteq> None
                  \<and> open_text st' = content ms @ EOL # tx)
              \<or> (\<exists>p l. tx = p @ l \<and> opened_at td st' l []))"
    proof (cases "mended ms1")
      case False
      with s1 have sk: "mseeking ms1" by (simp add: mseeking_def)
      from fd have st': "st' = st\<lparr>mustacheStatement := Some ms1\<rparr>" unfolding eq using sk by simp
      from ne [OF False] have w1: "wfl ms1"
        and c1: "content ms1 = (if mstarted ms then content ms @ [EOL] else content ms) @ tx"
        by simp_all
      have b': "blockStatement st' = None" and m': "mustacheStatement st' = Some ms1"
        using b st' by simp_all
      have ot: "open_text st' = content ms1"
        using open_text_mustache [OF b' m' w1 s1 False] .
      have w: "well_open st'" using o' b' m' w1 s1 by (simp add: well_open_def)
      show ?thesis
      proof (cases "mstarted ms")
        case True
        with ot c1 b' m' w show ?thesis by simp
      next
        case False
        with sr have "MUSTACHE_REGEX_test tx" "content ms = []" by simp_all
        with ot c1 False b' m' have "opened_at td st' tx []" by (simp add: opened_at_def)
        then have "\<exists>p l. tx = p @ l \<and> opened_at td st' l []"
          by (intro exI [of _ "[]"] exI [of _ tx]) simp
        with w show ?thesis by simp
      qed
    next
      case True
      then have nsk: "\<not> mseeking ms1" by (simp add: mseeking_def)
      have ie: "idle (emit_mustache st ms1)" using b by (simp add: idle_def)
      show ?thesis
      proof (cases "textRight (mprops ms1) = []")
        case True
        from fd have "st' = consumeNode (emit_mustache st ms1) (getBlankLineNode (emit_mustache st ms1))"
          unfolding eq using nsk True by simp
        with ie have "idle st'" by simp
        then show ?thesis by (simp add: well_open_idle)
      next
        case False
        from fd have p: "processText td (emit_mustache st ms1) (textRight (mprops ms1)) = Inr st'"
          unfolding eq using nsk False by simp
        have eqn: "emit_mustache st ms1 = consumeNode
                  (if textLeft (mprops ms1) \<noteq> []
                   then consumeNode (st\<lparr>mustacheStatement := Some ms1\<rparr>)
                      (Raw (textLeft (mprops ms1)) (mstartPosition ms1))
                   else st\<lparr>mustacheStatement := Some ms1\<rparr>)
                  (getMustacheNode (mprops ms1) (mstartPosition ms1))\<lparr>mustacheStatement := None\<rparr>"
          by (simp add: emit_mustache_def)
        have sd: "\<not> \<not> isSeeked_mustache (Some ms1)" using nsk by (simp add: isSeeked_mustache_def)
        from "2.IH" [OF m(1) f sd refl refl eqn False, unfolded text_step_def, rule_format,
            OF well_open_idle [OF ie] p]
        have w: "well_open st'"
          and d: "step td (emit_mustache st ms1) (textRight (mprops ms1)) st'" by simp_all
        from su [OF True] obtain p0 where tx: "tx = p0 @ textRight (mprops ms1)" by blast
        from d ie have "idle st' \<or> (\<exists>p l. textRight (mprops ms1) = p @ l \<and> opened_at td st' l [])"
          by (auto simp: step_def)
        then have "idle st' \<or> (\<exists>p l. tx = p @ l \<and> opened_at td st' l [])"
        proof
          assume "idle st'" then show ?thesis by simp
        next
          assume "\<exists>p l. textRight (mprops ms1) = p @ l \<and> opened_at td st' l []"
          then obtain p1 l where e: "textRight (mprops ms1) = p1 @ l" and oa: "opened_at td st' l []"
            by blast
          from tx e have "tx = (p0 @ p1) @ l" by simp
          with oa show ?thesis by blast
        qed
        with w show ?thesis by blast
      qed
    qed
  qed
qed

lemma processText_step:
  assumes "well_open st" and "processText td st tx = Inr st'"
  shows "well_open st'" and "step td st tx st'"
  using processText_step_aux(1) [of td st tx] assms unfolding text_step_def by blast+

subsection \<open>The lines an open statement has taken\<close>

text \<open>
  After the lines \<open>seen\<close>, an open statement was opened by one of them, or by what was left
  of it to the right of a mustache, and has been fed all the lines after that one.
\<close>

definition tracks :: "TagsDef \<Rightarrow> Tokenizer \<Rightarrow> string list \<Rightarrow> bool" where
  "tracks td st seen =
     (idle st \<or> (\<exists>pre p l ls. seen = pre @ (p @ l) # ls \<and> opened_at td st l ls))"

lemma join_EOL_snoc: "join_EOL (x # ls) @ EOL # t = join_EOL (x # ls @ [t])"
  by (induction ls arbitrary: x) simp_all

lemma well_open_line [simp]: "well_open (st\<lparr>line := n\<rparr>) = well_open st"
  by (simp add: well_open_def one_open_def)

lemma idle_line [simp]: "idle (st\<lparr>line := n\<rparr>) = idle st"
  by (simp add: idle_def)

lemma open_text_line [simp]: "open_text (st\<lparr>line := n\<rparr>) = open_text st"
  by (simp add: open_text_def split: option.splits)

lemma step_tracks:
  assumes "step td (st\<lparr>line := n\<rparr>) tx st'" and "tracks td st seen"
  shows "tracks td st' (seen @ [tx])"
proof -
  from assms(1) consider (a) "idle st'"
    | (b) "\<not> idle st" "\<not> idle st'" "blockStatement st' = None \<longleftrightarrow> blockStatement st = None"
        "open_text st' = open_text st @ EOL # tx"
    | (c) p l where "tx = p @ l" "opened_at td st' l []"
    unfolding step_def by auto
  then show ?thesis
  proof cases
    case a
    then show ?thesis by (simp add: tracks_def)
  next
    case b
    with assms(2) obtain pre p l ls where d: "seen = pre @ (p @ l) # ls"
      and oa: "opened_at td st l ls"
      by (auto simp: tracks_def)
    have "opened_at td st' l (ls @ [tx])"
    proof (cases "blockStatement st = None")
      case True
      with oa have "MUSTACHE_REGEX_test l" "open_text st = join_EOL (l # ls)"
        by (simp_all add: opened_at_def)
      moreover from True b(2,3) have "blockStatement st' = None" "mustacheStatement st' \<noteq> None"
        by (simp_all add: idle_def)
      ultimately show ?thesis using b(4) by (simp add: opened_at_def join_EOL_snoc)
    next
      case False
      with oa have "opens_tag td l" "open_text st = join_EOL (trim l # ls)"
        by (simp_all add: opened_at_def)
      moreover from False b(3) have "blockStatement st' \<noteq> None" by simp
      ultimately show ?thesis using b(4) by (simp add: opened_at_def join_EOL_snoc)
    qed
    with d have "seen @ [tx] = pre @ (p @ l) # (ls @ [tx]) \<and> opened_at td st' l (ls @ [tx])"
      by simp
    then show ?thesis unfolding tracks_def by blast
  next
    case c
    then have "seen @ [tx] = seen @ (p @ l) # [] \<and> opened_at td st' l []" by simp
    then show ?thesis unfolding tracks_def by blast
  qed
qed

lemma parse_lines_tracks:
  "well_open st \<Longrightarrow> tracks td st seen \<Longrightarrow> parse_lines td st ls = Inr st'
     \<Longrightarrow> well_open st' \<and> tracks td st' (seen @ ls)"
proof (induction ls arbitrary: st seen)
  case Nil
  then show ?case by simp
next
  case (Cons l ls)
  from Cons.prems(3) obtain st1 where p: "processText td (st\<lparr>line := line st + 1\<rparr>) l = Inr st1"
    and r: "parse_lines td st1 ls = Inr st'"
    by (auto split: sum.splits)
  from Cons.prems(1) have w: "well_open (st\<lparr>line := line st + 1\<rparr>)" by simp
  note s = processText_step [OF w p]
  from step_tracks [OF s(2) Cons.prems(2)] have t: "tracks td st1 (seen @ [l])" .
  from Cons.IH [OF s(1) t r] show ?case by simp
qed

text \<open>
  Claim C6. If the loop over the lines of the template ends without an error while a tag
  statement or a mustache statement is still open, \<open>parse\<close> returns without an error: it
  consumes one Raw node, numbered with the last line, and one Newline node after it. The
  Raw node holds the accumulated raw text of the statement with its sigil or delimiters:
  for a tag statement the text that opened it, trimmed, which starts with \<open>@\<close>, and for a
  mustache statement the text that opened it, which has the opening braces, in both cases
  followed by every later line of the template after a line break. The text that opened
  the statement is a line of the template or what was left of a line to the right of a
  mustache.
\<close>

theorem C6_unterminated_statement:
  assumes "parse_lines td new_Tokenizer (split_EOL template) = Inr st"
  shows "(\<forall>bs. blockStatement st = Some bs \<longrightarrow>
            parse td template =
              Inr (consumeNode (consumeNode (st\<lparr>blockStatement := None\<rparr>)
                     (Raw (CHR ''@'' # raw (tprops bs)) (line st))) (Newline (line st)))
            \<and> (\<exists>pre p l ls. split_EOL template = pre @ (p @ l) # ls \<and> opens_tag td l
                  \<and> (\<exists>r. trim l = CHR ''@'' # r)
                  \<and> CHR ''@'' # raw (tprops bs) = join_EOL (trim l # ls)))
       \<and> (\<forall>ms. mustacheStatement st = Some ms \<longrightarrow>
            parse td template =
              Inr (consumeNode (consumeNode (st\<lparr>mustacheStatement := None\<rparr>)
                     (Raw (textLeft (mprops ms) @ raw (mprops ms) @ textRight (mprops ms)) (line st)))
                     (Newline (line st)))
            \<and> (\<exists>pre p l ls. split_EOL template = pre @ (p @ l) # ls \<and> MUSTACHE_REGEX_test l
                  \<and> textLeft (mprops ms) @ raw (mprops ms) @ textRight (mprops ms)
                      = join_EOL (l # ls)))"
proof -
  have i: "idle new_Tokenizer" by (simp add: idle_def new_Tokenizer_def)
  then have t0: "tracks td new_Tokenizer []" by (simp add: tracks_def)
  from parse_lines_tracks [OF well_open_idle [OF i] t0 assms]
  have w: "well_open st" and t: "tracks td st (split_EOL template)" by simp_all
  from w have o: "one_open st" by (simp add: well_open_def)
  have p: "parse td template = Inr (parse_eof st)" using assms by (simp add: parse_def)
  show ?thesis
  proof (intro conjI allI impI)
    fix bs assume b: "blockStatement st = Some bs"
    with o have m: "mustacheStatement st = None" by (simp add: one_open_def)
    show "parse td template =
              Inr (consumeNode (consumeNode (st\<lparr>blockStatement := None\<rparr>)
                     (Raw (CHR ''@'' # raw (tprops bs)) (line st))) (Newline (line st)))"
      unfolding p using b m
      by (simp add: parse_eof_def Let_def getRawNode_def getBlankLineNode_def consumeNode_def)
    from t b obtain pre p l ls where d: "split_EOL template = pre @ (p @ l) # ls"
      and oa: "opened_at td st l ls"
      by (auto simp: tracks_def idle_def)
    from oa b have ot: "opens_tag td l" and e: "CHR ''@'' # raw (tprops bs) = join_EOL (trim l # ls)"
      by (simp_all add: opened_at_def open_text_def)
    from opens_tag_sigil [OF ot] have "\<exists>r. trim l = CHR ''@'' # r" by blast
    with d ot e show "\<exists>pre p l ls. split_EOL template = pre @ (p @ l) # ls \<and> opens_tag td l
                  \<and> (\<exists>r. trim l = CHR ''@'' # r)
                  \<and> CHR ''@'' # raw (tprops bs) = join_EOL (trim l # ls)"
      by blast
  next
    fix ms assume m: "mustacheStatement st = Some ms"
    with o have b: "blockStatement st = None" by (auto simp: one_open_def)
    show "parse td template =
              Inr (consumeNode (consumeNode (st\<lparr>mustacheStatement := None\<rparr>)
                     (Raw (textLeft (mprops ms) @ raw (mprops ms) @ textRight (mprops ms)) (line st)))
                     (Newline (line st)))"
      unfolding p using b m
      by (simp add: parse_eof_def Let_def getRawNode_def getBlankLineNode_def)
    from t m obtain pre p l ls where d: "split_EOL template = pre @ (p @ l) # ls"
      and oa: "opened_at td st l ls"
      by (auto simp: tracks_def idle_def)
    from oa b m have "MUSTACHE_REGEX_test l"
      "textLeft (mprops ms) @ raw (mprops ms) @ textRight (mprops ms) = join_EOL (l # ls)"
      by (simp_all add: opened_at_def open_text_def)
    with d show "\<exists>pre p l ls. split_EOL template = pre @ (p @ l) # ls \<and> MUSTACHE_REGEX_test l
                  \<and> textLeft (mprops ms) @ raw (mprops ms) @ textRight (mprops ms)
                      = join_EOL (l # ls)"
      by blast
  qed
qed

theorem C6_unterminated_statement_witness:
  "(\<exists>st bs. parse_lines td_if new_Tokenizer (split_EOL ''@if(username'') = Inr st
       \<and> blockStatement st = Some bs \<and> raw (tprops bs) = ''if(username'')
   \<and> (\<exists>st'. parse td_if ''@if(username'' = Inr st'
         \<and> tokens st' = [Raw ''@if(username'' 1, Newline 1] \<and> openedTags st' = [])
   \<and> (\<exists>st bs. parse_lines td_if new_Tokenizer (split_EOL (''  @if('' @ [EOL] @ '' username'')) = Inr st
       \<and> blockStatement st = Some bs \<and> raw (tprops bs) = ''if('' @ [EOL] @ '' username'')
   \<and> (\<exists>st'. parse td_if (''  @if('' @ [EOL] @ '' username'') = Inr st'
         \<and> tokens st' = [Raw (''@if('' @ [EOL] @ '' username'') 2, Newline 2] \<and> openedTags st' = [])
   \<and> (\<exists>st ms. parse_lines td_if new_Tokenizer (split_EOL (''a {{ b'' @ [EOL] @ ''c'')) = Inr st
       \<and> mustacheStatement st = Some ms \<and> textLeft (mprops ms) = ''a ''
       \<and> raw (mprops ms) = ''{{ b'' @ [EOL] @ ''c'' \<and> textRight (mprops ms) = [])
   \<and> (\<exists>st'. parse td_if (''a {{ b'' @ [EOL] @ ''c'') = Inr st'
         \<and> tokens st' = [Raw (''a {{ b'' @ [EOL] @ ''c'') 2, Newline 2] \<and> openedTags st' = [])"
proof -
  let ?bs1 = "\<lparr>tstartPosition = 1, seekable = True, tstarted = True, tended = False,
        tprops = \<lparr>name = ''if'', jsArg = [], raw = ''if(username''\<rparr>,
        tcurrentProp = F_jsArg, internalParens = 0,
        tinternalProps = Some \<lparr>bucket_name = \<lparr>whitespace_mode = WS_NONE, chars = ''if'', lastChar = []\<rparr>,
              bucket_jsArg = \<lparr>whitespace_mode = WS_CONTROLLED, chars = ''username'', lastChar = ''e''\<rparr>\<rparr>\<rparr>"
  let ?st1 = "\<lparr>tokens = [], blockStatement = Some ?bs1, mustacheStatement = None, line = 1,
        openedTags = []\<rparr>"
  have l1: "parse_lines td_if new_Tokenizer (split_EOL ''@if(username'') = Inr ?st1"
    by code_simp
  have b1: "blockStatement ?st1 = Some ?bs1" by simp
  from conjunct1 [OF C6_unterminated_statement [OF l1], rule_format, OF b1, THEN conjunct1]
  have p1: "\<exists>st'. parse td_if ''@if(username'' = Inr st'
         \<and> tokens st' = [Raw ''@if(username'' 1, Newline 1] \<and> openedTags st' = []"
    by (simp add: consumeNode_def)
  from l1 have h1: "\<exists>st bs. parse_lines td_if new_Tokenizer (split_EOL ''@if(username'') = Inr st
       \<and> blockStatement st = Some bs \<and> raw (tprops bs) = ''if(username''"
    by simp
  let ?t2 = "''  @if('' @ [EOL] @ '' username''"
  let ?bs2 = "\<lparr>tstartPosition = 1, seekable = True, tstarted = True, tended = False,
        tprops = \<lparr>name = ''if'', jsArg = [], raw = ''if('' @ [EOL] @ '' username''\<rparr>,
        tcurrentProp = F_jsArg, internalParens = 0,
        tinternalProps = Some \<lparr>bucket_name = \<lparr>whitespace_mode = WS_NONE, chars = ''if'', lastChar = []\<rparr>,
              bucket_jsArg = \<lparr>whitespace_mode = WS_CONTROLLED, chars = '' username'', lastChar = ''e''\<rparr>\<rparr>\<rparr>"
  let ?st2 = "\<lparr>tokens = [], blockStatement = Some ?bs2, mustacheStatement = None, line = 2,
        openedTags = []\<rparr>"
  have l2: "parse_lines td_if new_Tokenizer (split_EOL ?t2) = Inr ?st2"
    by code_simp
  have b2: "blockStatement ?st2 = Some ?bs2" by simp
  from conjunct1 [OF C6_unterminated_statement [OF l2], rule_format, OF b2, THEN conjunct1]
  have p2: "\<exists>st'. parse td_if ?t2 = Inr st'
         \<and> tokens st' = [Raw (''@if('' @ [EOL] @ '' username'') 2, Newline 2] \<and> openedTags st' = []"
    by (simp add: consumeNode_def)
  from l2 have h2: "\<exists>st bs. parse_lines td_if new_Tokenizer (split_EOL ?t2) = Inr st
       \<and> blockStatement st = Some bs \<and> raw (tprops bs) = ''if('' @ [EOL] @ '' username''"
    by simp
  let ?t3 = "''a {{ b'' @ [EOL] @ ''c''"
  let ?ms3 = "\<lparr>mstartPosition = 1, mstarted = True, mended = False,
        mprops = \<lparr>name = ''mustache'', jsArg = [], raw = ''{{ b'' @ [EOL] @ ''c'',
                  textLeft = ''a '', textRight = []\<rparr>,
        mcurrentProp = M_jsArg, internalBraces = 0,
        minternalProps = Some
          \<lparr>mbucket_jsArg = \<lparr>whitespace_mode = WS_CONTROLLED, chars = '' bc'', lastChar = ''c''\<rparr>,
            mbucket_textLeft = \<lparr>whitespace_mode = WS_ALL, chars = ''a '', lastChar = []\<rparr>,
            mbucket_textRight = \<lparr>whitespace_mode = WS_ALL, chars = [], lastChar = []\<rparr>\<rparr>\<rparr>"
  let ?st3 = "\<lparr>tokens = [], blockStatement = None, mustacheStatement = Some ?ms3, line = 2,
        openedTags = []\<rparr>"
  have l3: "parse_lines td_if new_Tokenizer (split_EOL ?t3) = Inr ?st3"
    by code_simp
  have b3: "mustacheStatement ?st3 = Some ?ms3" by simp
  from conjunct2 [OF C6_unterminated_statement [OF l3], rule_format, OF b3, THEN conjunct1]
  have p3: "\<exists>st'. parse td_if ?t3 = Inr st'
         \<and> tokens st' = [Raw (''a {{ b'' @ [EOL] @ ''c'') 2, Newline 2] \<and> openedTags st' = []"
    by (simp add: consumeNode_def)
  from l3 have h3: "\<exists>st ms. parse_lines td_if new_Tokenizer (split_EOL ?t3) = Inr st
       \<and> mustacheStatement st = Some ms \<and> textLeft (mprops ms) = ''a ''
       \<and> raw (mprops ms) = ''{{ b'' @ [EOL] @ ''c'' \<and> textRight (mprops ms) = []"
    by simp
  from h1 p1 h2 p2 h3 p3 show ?thesis by (intro conjI)
qed

end
